theory Spec2Isabelle
  imports Complex_Main
begin

section \<open>Errors and scores\<close>

text \<open>
  The exceptions of the Python program are values. \<open>TypeError\<close> is what a call with the
  wrong number of arguments raises, \<open>ValueError\<close> is what \<open>np.argmax\<close> raises on an empty
  sequence, \<open>IndexError\<close> is what \<open>random.choice\<close> raises on an empty sequence,
  \<open>ZeroDivisionError\<close> is what \<open>node.wins / node.visits\<close> raises when \<open>visits\<close> is the
  integer zero, and \<open>AttributeError\<close> is what \<open>node.parent.visits\<close> raises when the parent
  is \<open>None\<close>. The last two constructors are the conditions named by the specification;
  no function of \<open>src/main.py\<close> raises them.
\<close>

datatype error =
    TypeError
  | ValueError
  | IndexError
  | ZeroDivisionError
  | AttributeError
  | InvalidStartState
  | InvalidConfiguration

text \<open>
  A \<open>float64\<close> score is either not-a-number or a number. The numbers are idealised as
  reals: the rounding of the floating-point operations is not modelled, so two scores that
  differ here can be equal in the program. The runs evaluated below score a single child
  or children with equal counters, so their outcome does not depend on the rounding.
\<close>

datatype score = NaN | Val real

section \<open>The game capability\<close>

text \<open>
  What the engine consumes from the game object and from the state objects. A method that
  the program calls with a variable number of positional arguments takes the list of these
  arguments, so that a call of the wrong arity is a branch of the model:

  \<^item> \<open>game_is_terminal\<close> is the bound method \<open>self.game.is_terminal\<close>, which \<open>search\<close> and
    \<open>_select\<close> call with one argument, \<open>node.state\<close>;
  \<^item> \<open>is_terminal\<close> and \<open>get_result\<close> are the methods of a state object, which
    \<open>random_policy\<close> calls with no argument;
  \<^item> \<open>get_legal_moves\<close>, \<open>play\<close> and \<open>current_player\<close> are the remaining members of a state
    object; \<open>play\<close> mutates the object in place, here it returns the new value of the object;
  \<^item> \<open>move_eq_state m s\<close> is Python's test \<open>m is s or m == s\<close> between a move and a state
    object, which is what \<open>move not in [child.state for child in node.children]\<close> evaluates.
\<close>

record ('s, 'm, 'p) game =
  game_is_terminal :: "'s list \<Rightarrow> error + bool"
  get_legal_moves :: "'s \<Rightarrow> 'm list"
  play :: "'m \<Rightarrow> 's \<Rightarrow> 's"
  is_terminal :: "'s \<Rightarrow> 's list \<Rightarrow> error + bool"
  get_result :: "'s \<Rightarrow> 's list \<Rightarrow> error + 'p"
  current_player :: "'s \<Rightarrow> 'p"
  move_eq_state :: "'m \<Rightarrow> 's \<Rightarrow> bool"

section \<open>Tree nodes in a store\<close>

text \<open>
  A \<open>Node\<close> object is a cell of a store, addressed by its index; \<open>parent\<close> and \<open>children\<close>
  hold indices. Every node owns its state object (the root holds the initial state, a child
  holds a deep copy), so the state is kept by value in the node, and a mutation of the
  object \<open>node.state\<close> is an update of this field. The counters start at zero and are only
  incremented.
\<close>

record 's node =
  state :: 's
  parent :: "nat option"
  children :: "nat list"
  wins :: nat
  visits :: nat

type_synonym 's store = "'s node list"

definition new_node :: "'s \<Rightarrow> nat option \<Rightarrow> 's node" where
  "new_node s p = \<lparr>state = s, parent = p, children = [], wins = 0, visits = 0\<rparr>"

subsection \<open>\<open>ucb1\<close>\<close>

text \<open>
  \<open>(node.wins / node.visits) + exploration_weight * np.sqrt(np.log(node.parent.visits) / node.visits)\<close>.
  The division of two Python integers raises when \<open>visits\<close> is zero; \<open>np.log(0)\<close> is minus
  infinity, whose quotient has the square root not-a-number. Otherwise the score is the
  exact value of the expression; the limits of the machine numbers (rounding, and integers
  too large for \<open>np.log\<close>) are not modelled.
\<close>

definition ucb1 :: "'s store \<Rightarrow> nat \<Rightarrow> real \<Rightarrow> error + score" where
  "ucb1 st c w =
    (if visits (st ! c) = 0 then Inl ZeroDivisionError
     else case parent (st ! c) of
       None \<Rightarrow> Inl AttributeError
     | Some p \<Rightarrow>
         if visits (st ! p) = 0 then Inr NaN
         else Inr (Val (real (wins (st ! c)) / real (visits (st ! c))
                + w * sqrt (ln (real (visits (st ! p))) / real (visits (st ! c))))))"

subsection \<open>\<open>Node.is_fully_expanded\<close>\<close>

definition is_fully_expanded :: "('s, 'm, 'p) game \<Rightarrow> 's node \<Rightarrow> bool" where
  "is_fully_expanded g nd = (length (children nd) = length (get_legal_moves g (state nd)))"

subsection \<open>\<open>Node.best_child\<close>\<close>

text \<open>The list comprehension stops at the first score that raises.\<close>

fun ucb1_all :: "'s store \<Rightarrow> real \<Rightarrow> nat list \<Rightarrow> error + score list" where
  "ucb1_all st w [] = Inr []"
| "ucb1_all st w (c # cs) =
    (case ucb1 st c w of
       Inl e \<Rightarrow> Inl e
     | Inr x \<Rightarrow> (case ucb1_all st w cs of Inl e \<Rightarrow> Inl e | Inr xs \<Rightarrow> Inr (x # xs)))"

text \<open>
  \<open>np.argmax\<close>: the scan keeps the first maximum, a not-a-number counts as the maximum,
  and an empty sequence raises.
\<close>

fun score_gt :: "score \<Rightarrow> score \<Rightarrow> bool" where
  "score_gt x NaN = False"
| "score_gt NaN (Val b) = True"
| "score_gt (Val a) (Val b) = (b < a)"

fun argmax_from :: "nat \<Rightarrow> score \<Rightarrow> nat \<Rightarrow> score list \<Rightarrow> nat" where
  "argmax_from b bv i [] = b"
| "argmax_from b bv i (x # xs) =
    (if score_gt x bv then argmax_from i x (Suc i) xs else argmax_from b bv (Suc i) xs)"

fun argmax :: "score list \<Rightarrow> error + nat" where
  "argmax [] = Inl ValueError"
| "argmax (x # xs) = Inr (argmax_from 0 x 1 xs)"

definition best_child :: "'s store \<Rightarrow> nat \<Rightarrow> real \<Rightarrow> error + nat" where
  "best_child st i w =
    (case ucb1_all st w (children (st ! i)) of
       Inl e \<Rightarrow> Inl e
     | Inr ws \<Rightarrow> (case argmax ws of Inl e \<Rightarrow> Inl e | Inr k \<Rightarrow> Inr (children (st ! i) ! k)))"

section \<open>The rollout\<close>

text \<open>
  \<open>random_policy\<close>. The random source is a function \<open>rnd\<close> giving the \<open>k\<close>-th draw, with
  the number of draws made so far passed along; \<open>random.choice\<close> raises on an empty
  sequence. The loop may run forever, which is the value \<open>None\<close>. The function returns the
  outcome together with the final value of the state object it was given, which it has
  mutated in place.
\<close>

partial_function (option) random_policy ::
  "('s, 'm, 'p) game \<Rightarrow> (nat \<Rightarrow> nat) \<Rightarrow> nat \<Rightarrow> 's \<Rightarrow> (error + 'p \<times> 's \<times> nat) option" where
  "random_policy g rnd k s =
    (case is_terminal g s [] of
       Inl e \<Rightarrow> Some (Inl e)
     | Inr t \<Rightarrow>
         (if t then
            (case get_result g s [] of
               Inl e \<Rightarrow> Some (Inl e)
             | Inr r \<Rightarrow> Some (Inr (r, s, k)))
          else if get_legal_moves g s = [] then Some (Inl IndexError)
          else random_policy g rnd (Suc k)
                 (play g (get_legal_moves g s ! (rnd k mod length (get_legal_moves g s))) s)))"

section \<open>The search\<close>

subsection \<open>\<open>MCTS._select\<close>\<close>

partial_function (option) select ::
  "('s, 'm, 'p) game \<Rightarrow> nat \<Rightarrow> 's store \<Rightarrow> (error + nat) option" where
  "select g i st =
    (case game_is_terminal g [state (st ! i)] of
       Inl e \<Rightarrow> Some (Inl e)
     | Inr t \<Rightarrow>
         (if \<not> t \<and> is_fully_expanded g (st ! i)
          then (case best_child st i (141 / 100) of
                  Inl e \<Rightarrow> Some (Inl e)
                | Inr c \<Rightarrow> select g c st)
          else Some (Inr i)))"

subsection \<open>\<open>MCTS._expand\<close>\<close>

text \<open>
  The first legal move that is not found among the children's state objects is played on a
  deep copy of the node's state; the new node is appended to the store and to the node's
  children. When every move is found there, the node comes back unchanged.
\<close>

definition untried :: "('s, 'm, 'p) game \<Rightarrow> 's store \<Rightarrow> nat \<Rightarrow> 'm \<Rightarrow> bool" where
  "untried g st i m = (\<not> list_ex (\<lambda>c. move_eq_state g m (state (st ! c))) (children (st ! i)))"

definition expand :: "('s, 'm, 'p) game \<Rightarrow> nat \<Rightarrow> 's store \<Rightarrow> nat \<times> 's store" where
  "expand g i st =
    (case find (untried g st i) (get_legal_moves g (state (st ! i))) of
       None \<Rightarrow> (i, st)
     | Some m \<Rightarrow>
         (length st,
          st[i := (st ! i)\<lparr>children := children (st ! i) @ [length st]\<rparr>]
            @ [new_node (play g m (state (st ! i))) (Some i)]))"

subsection \<open>\<open>MCTS._backpropagate\<close>\<close>

text \<open>The body of the loop at one node, and the loop along the parent references.\<close>

definition bump :: "('s, 'm, 'p) game \<Rightarrow> 'p \<Rightarrow> 's node \<Rightarrow> 's node" where
  "bump g r nd =
    nd\<lparr>visits := visits nd + 1,
       wins := (if current_player g (state nd) = r then wins nd + 1 else wins nd)\<rparr>"

partial_function (option) backpropagate ::
  "('s, 'm, 'p) game \<Rightarrow> nat option \<Rightarrow> 'p \<Rightarrow> 's store \<Rightarrow> 's store option" where
  "backpropagate g nd r st =
    (case nd of
       None \<Rightarrow> Some st
     | Some i \<Rightarrow> backpropagate g (parent (st ! i)) r (st[i := bump g r (st ! i)]))"

text \<open>
  The loop seen from outside: the variable \<open>node\<close> and the store after \<open>n\<close> passes of the
  body of the loop, or as the loop leaves them when it ends sooner.
\<close>

fun backpropagate_after ::
  "nat \<Rightarrow> ('s, 'm, 'p) game \<Rightarrow> 'p \<Rightarrow> nat option \<times> 's store \<Rightarrow> nat option \<times> 's store" where
  "backpropagate_after 0 g r c = c"
| "backpropagate_after (Suc n) g r c =
    (case c of
       (None, st) \<Rightarrow> (None, st)
     | (Some i, st) \<Rightarrow> backpropagate_after n g r (parent (st ! i), st[i := bump g r (st ! i)]))"

subsection \<open>\<open>MCTS.search\<close>\<close>

text \<open>
  The first two statements of the body of the \<open>for\<close> loop: the node that \<open>_select\<close>
  reaches from the root, expanded unless the game object finds its state terminal.
\<close>

definition descend :: "('s, 'm, 'p) game \<Rightarrow> 's store \<Rightarrow> (error + nat \<times> 's store) option" where
  "descend g st =
    (case select g 0 st of
       None \<Rightarrow> None
     | Some (Inl e) \<Rightarrow> Some (Inl e)
     | Some (Inr i) \<Rightarrow>
        (case game_is_terminal g [state (st ! i)] of
           Inl e \<Rightarrow> Some (Inl e)
         | Inr t \<Rightarrow> Some (Inr (if \<not> t then expand g i st else (i, st)))))"

text \<open>
  One pass of the body of the \<open>for\<close> loop. \<open>random_policy\<close> receives the object
  \<open>node.state\<close> itself, so the node holds the mutated state afterwards.
\<close>

definition iteration ::
  "('s, 'm, 'p) game \<Rightarrow> (nat \<Rightarrow> nat) \<Rightarrow> 's store \<times> nat \<Rightarrow> (error + 's store \<times> nat) option" where
  "iteration g rnd a =
    (case a of (st, k) \<Rightarrow>
      (case descend g st of
         None \<Rightarrow> None
       | Some (Inl e) \<Rightarrow> Some (Inl e)
       | Some (Inr (j, st1)) \<Rightarrow>
          (case random_policy g rnd k (state (st1 ! j)) of
             None \<Rightarrow> None
           | Some (Inl e) \<Rightarrow> Some (Inl e)
           | Some (Inr (r, s', k')) \<Rightarrow>
              (case backpropagate g (Some j) r (st1[j := (st1 ! j)\<lparr>state := s'\<rparr>]) of
                 None \<Rightarrow> None
               | Some st2 \<Rightarrow> Some (Inr (st2, k'))))))"

text \<open>\<open>for _ in range(n)\<close>, for the number \<open>n\<close> of passes.\<close>

fun simulations ::
  "('s, 'm, 'p) game \<Rightarrow> (nat \<Rightarrow> nat) \<Rightarrow> nat \<Rightarrow> 's store \<times> nat \<Rightarrow> (error + 's store \<times> nat) option" where
  "simulations g rnd 0 a = Some (Inr a)"
| "simulations g rnd (Suc n) a =
    (case iteration g rnd a of
       None \<Rightarrow> None
     | Some (Inl e) \<Rightarrow> Some (Inl e)
     | Some (Inr a') \<Rightarrow> simulations g rnd n a')"

text \<open>
  \<open>search\<close> returns the chosen child; the tree it belongs to is returned with it.
  \<open>range(n)\<close> is empty for \<open>n \<le> 0\<close>.
\<close>

definition search ::
  "('s, 'm, 'p) game \<Rightarrow> int \<Rightarrow> 's \<Rightarrow> (nat \<Rightarrow> nat) \<Rightarrow> (error + nat \<times> 's store) option" where
  "search g n s0 rnd =
    (case simulations g rnd (nat n) ([new_node s0 None], 0) of
       None \<Rightarrow> None
     | Some (Inl e) \<Rightarrow> Some (Inl e)
     | Some (Inr (st, k)) \<Rightarrow>
        (case best_child st 0 0 of
           Inl e \<Rightarrow> Some (Inl e)
         | Inr c \<Rightarrow> Some (Inr (c, st))))"

text \<open>
  The nodes from which the passes of a run backpropagate, in order: the node that
  \<open>descend\<close> returns in each pass, up to the first pass that does not complete.
\<close>

fun leaves :: "('s, 'm, 'p) game \<Rightarrow> (nat \<Rightarrow> nat) \<Rightarrow> nat \<Rightarrow> 's store \<times> nat \<Rightarrow> nat list" where
  "leaves g rnd 0 a = []"
| "leaves g rnd (Suc n) a =
    (case descend g (fst a) of
       Some (Inr (j, st1)) \<Rightarrow>
         (case iteration g rnd a of
            Some (Inr a') \<Rightarrow> j # leaves g rnd n a'
          | _ \<Rightarrow> [j])
     | _ \<Rightarrow> [])"

section \<open>The bundled game\<close>

text \<open>
  \<open>GoGame\<close>: the board is a square array of zeros, ones and twos, the player to move is 1
  or 2. A move is a pair of coordinates.
\<close>

record go =
  board_size :: nat
  board :: "int list list"
  go_player :: int

definition go_init :: "nat \<Rightarrow> go" where
  "go_init n = \<lparr>board_size = n, board = replicate n (replicate n 0), go_player = 1\<rparr>"

definition go_get_legal_moves :: "go \<Rightarrow> (nat \<times> nat) list" where
  "go_get_legal_moves s =
    concat (map (\<lambda>x. map (\<lambda>y. (x, y)) (filter (\<lambda>y. board s ! x ! y = 0) [0..<board_size s]))
                [0..<board_size s])"

definition go_play :: "nat \<times> nat \<Rightarrow> go \<Rightarrow> go" where
  "go_play m s =
    (case m of (x, y) \<Rightarrow>
      s\<lparr>board := (board s)[x := (board s ! x)[y := go_player s]],
        go_player := 3 - go_player s\<rparr>)"

text \<open>
  \<open>def is_terminal(self, state)\<close> and \<open>def get_result(self, state)\<close> take exactly one
  argument besides \<open>self\<close>.
\<close>

definition go_is_terminal :: "go \<Rightarrow> go list \<Rightarrow> error + bool" where
  "go_is_terminal self args =
    (case args of [s] \<Rightarrow> Inr (length (go_get_legal_moves s) = 0) | _ \<Rightarrow> Inl TypeError)"

definition go_get_result :: "go \<Rightarrow> go list \<Rightarrow> error + int" where
  "go_get_result self args =
    (case args of
       [s] \<Rightarrow> Inr (if sum_list (map sum_list (board s)) > 0 then 1 else 2)
     | _ \<Rightarrow> Inl TypeError)"

text \<open>
  The engine built on the game object \<open>gm\<close>. A coordinate pair is never equal to a
  \<open>GoGame\<close> object.
\<close>

definition go_game :: "go \<Rightarrow> (go, nat \<times> nat, int) game" where
  "go_game gm =
    \<lparr>game_is_terminal = go_is_terminal gm,
     get_legal_moves = go_get_legal_moves,
     play = go_play,
     is_terminal = go_is_terminal,
     get_result = go_get_result,
     current_player = go_player,
     move_eq_state = (\<lambda>m s. False)\<rparr>"

section \<open>A game whose state methods take no argument\<close>

text \<open>
  A take-away game used as a concrete input: a state is the number of stones left and the
  player to move (1 or 2); a move takes one or two stones; the state is terminal when no
  stone is left, and the player who took the last stone has won. The rules object answers
  \<open>is_terminal(state)\<close>, a state object answers \<open>is_terminal()\<close> and \<open>get_result()\<close>. The
  random source \<open>always_first\<close> draws zero every time.
\<close>

definition always_first :: "nat \<Rightarrow> nat" where
  "always_first k = 0"

type_synonym nim = "nat \<times> int"

definition nim_get_legal_moves :: "nim \<Rightarrow> nat list" where
  "nim_get_legal_moves s = filter (\<lambda>m. m \<le> fst s) [1, 2]"

definition nim_play :: "nat \<Rightarrow> nim \<Rightarrow> nim" where
  "nim_play m s = (fst s - m, 3 - snd s)"

definition nim_is_terminal :: "nim \<Rightarrow> nim list \<Rightarrow> error + bool" where
  "nim_is_terminal self args = (case args of [] \<Rightarrow> Inr (fst self = 0) | _ \<Rightarrow> Inl TypeError)"

definition nim_get_result :: "nim \<Rightarrow> nim list \<Rightarrow> error + int" where
  "nim_get_result self args = (case args of [] \<Rightarrow> Inr (3 - snd self) | _ \<Rightarrow> Inl TypeError)"

definition nim_rules_is_terminal :: "nim list \<Rightarrow> error + bool" where
  "nim_rules_is_terminal args = (case args of [s] \<Rightarrow> Inr (fst s = 0) | _ \<Rightarrow> Inl TypeError)"

definition nim_game :: "(nim, nat, int) game" where
  "nim_game =
    \<lparr>game_is_terminal = nim_rules_is_terminal,
     get_legal_moves = nim_get_legal_moves,
     play = nim_play,
     is_terminal = nim_is_terminal,
     get_result = nim_get_result,
     current_player = snd,
     move_eq_state = (\<lambda>m s. False)\<rparr>"

section \<open>Invariants of the tree\<close>

text \<open>
  The sum of the visit counts of the children of a node, the shape that every tree built by
  the search has (the root is node 0 and has no parent, a parent is created before its
  children, the parent and children references agree, no child is listed twice), and two
  stores with the same references.
\<close>

definition child_visits :: "'s store \<Rightarrow> nat \<Rightarrow> nat" where
  "child_visits st i = sum_list (map (\<lambda>c. visits (st ! c)) (children (st ! i)))"

definition tree_inv :: "'s store \<Rightarrow> bool" where
  "tree_inv st \<longleftrightarrow>
     st \<noteq> [] \<and>
     parent (st ! 0) = None \<and>
     (\<forall>i<length st. \<forall>p. parent (st ! i) = Some p \<longrightarrow> p < i \<and> i \<in> set (children (st ! p))) \<and>
     (\<forall>i<length st. i \<noteq> 0 \<longrightarrow> parent (st ! i) \<noteq> None) \<and>
     (\<forall>i<length st. \<forall>c\<in>set (children (st ! i)). c < length st \<and> parent (st ! c) = Some i) \<and>
     (\<forall>i<length st. distinct (children (st ! i)))"

definition same_shape :: "'s store \<Rightarrow> 's store \<Rightarrow> bool" where
  "same_shape st st' \<longleftrightarrow>
     length st' = length st \<and>
     (\<forall>i<length st. parent (st' ! i) = parent (st ! i) \<and> children (st' ! i) = children (st ! i))"

text \<open>
  The store that \<open>_expand\<close> builds when it finds an untried move: the new node holds the
  state \<open>s\<close> and is appended to the store and to the children of node \<open>i\<close>.
\<close>

definition grow :: "'s store \<Rightarrow> nat \<Rightarrow> 's \<Rightarrow> 's store" where
  "grow st i s =
     st[i := (st ! i)\<lparr>children := children (st ! i) @ [length st]\<rparr>] @ [new_node s (Some i)]"

text \<open>
  What holds of the store between two passes of the search, and what holds of it inside a
  pass, after \<open>descend\<close> has returned the node \<open>j\<close> and before \<open>_backpropagate\<close> has run:
  every node but the root and \<open>j\<close> has been visited, and no node has fewer visits than its
  children together.
\<close>

definition search_inv :: "'s store \<Rightarrow> bool" where
  "search_inv st \<longleftrightarrow>
     tree_inv st \<and>
     (\<forall>i<length st. i \<noteq> 0 \<longrightarrow> 1 \<le> visits (st ! i)) \<and>
     (\<forall>i<length st. child_visits st i \<le> visits (st ! i))"

definition mid_inv :: "nat \<Rightarrow> 's store \<Rightarrow> bool" where
  "mid_inv j st \<longleftrightarrow>
     tree_inv st \<and> j < length st \<and>
     (\<forall>i<length st. i \<noteq> 0 \<longrightarrow> i \<noteq> j \<longrightarrow> 1 \<le> visits (st ! i)) \<and>
     (\<forall>i<length st. child_visits st i \<le> visits (st ! i))"

text \<open>
  What holds of the store inside the loop of \<open>_backpropagate\<close>: no node has fewer visits
  than its children together, but for the node \<open>cur\<close> that the loop counts next, which may
  be short by one.
\<close>

definition short_by_one :: "nat option \<Rightarrow> 's store \<Rightarrow> bool" where
  "short_by_one cur st \<longleftrightarrow>
     (\<forall>i<length st. child_visits st i \<le> visits (st ! i) + (if cur = Some i then 1 else 0))"

section \<open>The score of the specification\<close>

text \<open>
  The formula as the specification writes it,
  \<open>(c.winCount / c.visitCount) + explorationWeight * sqrt(ln(parent.visitCount) / c.visitCount)\<close>,
  over the reals, and its value at the child \<open>c\<close> of the node \<open>p\<close> of a store.
\<close>

definition score_formula :: "real \<Rightarrow> nat \<Rightarrow> nat \<Rightarrow> nat \<Rightarrow> real" where
  "score_formula w win_count visit_count parent_visit_count =
     real win_count / real visit_count
       + w * sqrt (ln (real parent_visit_count) / real visit_count)"

definition node_score :: "'s store \<Rightarrow> real \<Rightarrow> nat \<Rightarrow> nat \<Rightarrow> real" where
  "node_score st w p c = score_formula w (wins (st ! c)) (visits (st ! c)) (visits (st ! p))"

section \<open>Properties\<close>

subsection \<open>The shape of the tree\<close>

lemma same_shape_refl: "same_shape st st"
  by (simp add: same_shape_def)

lemma same_shape_trans: "same_shape a b \<Longrightarrow> same_shape b c \<Longrightarrow> same_shape a c"
  by (simp add: same_shape_def)

lemma tree_inv_parent_less: "tree_inv st \<Longrightarrow> i < length st \<Longrightarrow> parent (st ! i) = Some p \<Longrightarrow> p < i"
  unfolding tree_inv_def by blast

lemma tree_inv_parent_child:
  "tree_inv st \<Longrightarrow> i < length st \<Longrightarrow> parent (st ! i) = Some p \<Longrightarrow> i \<in> set (children (st ! p))"
  unfolding tree_inv_def by blast

lemma tree_inv_root: "tree_inv st \<Longrightarrow> 0 < length st \<and> parent (st ! 0) = None"
  by (simp add: tree_inv_def)

lemma tree_inv_nonroot: "tree_inv st \<Longrightarrow> i < length st \<Longrightarrow> parent (st ! i) = None \<Longrightarrow> i = 0"
  unfolding tree_inv_def by blast

lemma tree_inv_child:
  "tree_inv st \<Longrightarrow> i < length st \<Longrightarrow> c \<in> set (children (st ! i)) \<Longrightarrow> c < length st \<and> parent (st ! c) = Some i"
  unfolding tree_inv_def by blast

lemma tree_inv_distinct: "tree_inv st \<Longrightarrow> i < length st \<Longrightarrow> distinct (children (st ! i))"
  by (simp add: tree_inv_def)

lemma same_shape_tree_inv:
  assumes sh: "same_shape st st'" and ti: "tree_inv st"
  shows "tree_inv st'"
proof -
  have len: "length st' = length st" using sh by (simp add: same_shape_def)
  have par: "\<And>i. i < length st \<Longrightarrow> parent (st' ! i) = parent (st ! i)"
    using sh by (simp add: same_shape_def)
  have chi: "\<And>i. i < length st \<Longrightarrow> children (st' ! i) = children (st ! i)"
    using sh by (simp add: same_shape_def)
  have r: "0 < length st" "parent (st ! 0) = None" using tree_inv_root[OF ti] by auto
  have a: "st' \<noteq> []" using len r by auto
  have b: "parent (st' ! 0) = None" using par[OF r(1)] r(2) by simp
  have c: "\<forall>i<length st'. \<forall>p. parent (st' ! i) = Some p \<longrightarrow> p < i \<and> i \<in> set (children (st' ! p))"
  proof (intro allI impI)
    fix i p assume i: "i < length st'" and p: "parent (st' ! i) = Some p"
    have i': "i < length st" using i len by simp
    have p': "parent (st ! i) = Some p" using p par[OF i'] by simp
    have lt: "p < i" using tree_inv_parent_less[OF ti i' p'] .
    have "i \<in> set (children (st ! p))" using tree_inv_parent_child[OF ti i' p'] .
    moreover have "p < length st" using lt i' by simp
    ultimately show "p < i \<and> i \<in> set (children (st' ! p))" using lt chi by simp
  qed
  have d: "\<forall>i<length st'. i \<noteq> 0 \<longrightarrow> parent (st' ! i) \<noteq> None"
  proof (intro allI impI)
    fix i assume i: "i < length st'" and n: "i \<noteq> 0"
    have i': "i < length st" using i len by simp
    show "parent (st' ! i) \<noteq> None" using tree_inv_nonroot[OF ti i'] n par[OF i'] by auto
  qed
  have e: "\<forall>i<length st'. \<forall>c\<in>set (children (st' ! i)). c < length st' \<and> parent (st' ! c) = Some i"
  proof (intro allI impI ballI)
    fix i c assume i: "i < length st'" and c: "c \<in> set (children (st' ! i))"
    have i': "i < length st" using i len by simp
    have "c \<in> set (children (st ! i))" using c chi[OF i'] by simp
    from tree_inv_child[OF ti i' this] show "c < length st' \<and> parent (st' ! c) = Some i"
      using par len by simp
  qed
  have f: "\<forall>i<length st'. distinct (children (st' ! i))"
    using tree_inv_distinct[OF ti] chi len by simp
  show ?thesis unfolding tree_inv_def
    by (intro conjI) (rule a, rule b, rule c, rule d, rule e, rule f)
qed

lemma bump_fields [simp]:
  "parent (bump g r nd) = parent nd" "children (bump g r nd) = children nd"
  "state (bump g r nd) = state nd" "visits (bump g r nd) = Suc (visits nd)"
  by (simp_all add: bump_def)

lemma nth_upd_field: "ia < length st \<Longrightarrow> f x = f (st ! i) \<Longrightarrow> f (st[i := x] ! ia) = f (st ! ia)"
  by (cases "ia = i") auto

lemma same_shape_bump: "same_shape st (st[i := bump g r (st ! i)])"
  by (simp add: same_shape_def nth_upd_field)

lemma same_shape_state: "same_shape st (st[i := (st ! i)\<lparr>state := s\<rparr>])"
  by (simp add: same_shape_def nth_upd_field)

lemma backpropagate_rule:
  assumes "tree_inv st" "i < length st" "I (Some i) st"
    and step: "\<And>j s. tree_inv s \<Longrightarrow> same_shape st s \<Longrightarrow> j < length s \<Longrightarrow> I (Some j) s
               \<Longrightarrow> I (parent (s ! j)) (s[j := bump g r (s ! j)])"
  shows "\<exists>st'. backpropagate g (Some i) r st = Some st' \<and> I None st' \<and> same_shape st st'"
proof -
  have "\<And>s. tree_inv s \<Longrightarrow> same_shape st s \<Longrightarrow> i < length s \<Longrightarrow> I (Some i) s \<Longrightarrow>
     \<exists>st'. backpropagate g (Some i) r s = Some st' \<and> I None st' \<and> same_shape st st'"
  proof (induction i rule: less_induct)
    case (less i)
    let ?s1 = "s[i := bump g r (s ! i)]"
    have sh: "same_shape s ?s1" by (rule same_shape_bump)
    have sh1: "same_shape st ?s1" using less.prems(2) sh by (rule same_shape_trans)
    have ti: "tree_inv ?s1" using sh less.prems(1) by (rule same_shape_tree_inv)
    have I1: "I (parent (s ! i)) ?s1" by (rule step[OF less.prems(1,2,3,4)])
    have unf: "backpropagate g (Some i) r s = backpropagate g (parent (s ! i)) r ?s1"
      by (subst backpropagate.simps) simp
    show ?case
    proof (cases "parent (s ! i)")
      case None
      have "backpropagate g None r ?s1 = Some ?s1" by (subst backpropagate.simps) simp
      then show ?thesis using unf None I1 sh1 by simp
    next
      case (Some p)
      have lt: "p < i" using tree_inv_parent_less[OF less.prems(1,3) Some] .
      have pl: "p < length ?s1" using lt less.prems(3) by simp
      have I2: "I (Some p) ?s1" using I1 Some by simp
      from less.IH[OF lt ti sh1 pl I2] obtain st' where
        "backpropagate g (Some p) r ?s1 = Some st'" "I None st'" "same_shape st st'" by blast
      then show ?thesis using Some unf by simp
    qed
  qed
  from this[OF assms(1) same_shape_refl assms(2,3)] show ?thesis .
qed

subsection \<open>Runs on the bundled game and runs without a pass\<close>

lemma go_rollout_raises: "random_policy (go_game gm) rnd k s = Some (Inl TypeError)"
  by (subst random_policy.simps) (simp add: go_game_def go_is_terminal_def)

lemma go_select_root: "select (go_game gm) 0 [new_node s0 None] = Some (Inr 0)"
  by (subst select.simps)
     (auto simp add: go_game_def go_is_terminal_def is_fully_expanded_def new_node_def)

lemma go_iteration_raises:
  "iteration (go_game gm) rnd ([new_node s0 None], k) = Some (Inl TypeError)"
  by (simp add: iteration_def descend_def go_select_root go_rollout_raises
        split: prod.splits sum.splits)
     (simp add: go_game_def go_is_terminal_def)

lemma best_child_no_children: "children (st ! i) = [] \<Longrightarrow> best_child st i w = Inl ValueError"
  by (simp add: best_child_def)

text \<open>
  C10. \<open>random_policy\<close> calls \<open>state.is_terminal()\<close> with no argument, and \<open>GoGame\<close>
  defines \<open>is_terminal\<close> with one argument besides \<open>self\<close>: on every \<open>GoGame\<close> state,
  with every random source, the rollout raises the arity error and returns no outcome, and
  every search on the bundled game that makes at least one pass ends with this error.
\<close>

theorem go_rollout_never_completes:
  "random_policy (go_game gm) rnd k s = Some (Inl TypeError) \<and>
   (0 < n \<longrightarrow> search (go_game gm) n s0 rnd = Some (Inl TypeError))"
proof (intro conjI impI)
  show "random_policy (go_game gm) rnd k s = Some (Inl TypeError)"
    by (rule go_rollout_raises)
next
  assume "0 < n"
  then obtain m where m: "nat n = Suc m" by (cases "nat n") auto
  show "search (go_game gm) n s0 rnd = Some (Inl TypeError)"
    by (simp add: search_def m go_iteration_raises)
qed

theorem go_rollout_never_completes_witness:
  "(0::int) < 1000 \<and>
   search (go_game (go_init 9)) 1000 (go_init 9) always_first = Some (Inl TypeError)"
  using go_rollout_never_completes [of "go_init 9" always_first 0 "go_init 9" 1000 "go_init 9"]
  by simp

text \<open>
  C5 as stated fails: with \<open>n_simulations = 0\<close> on the bundled game, \<open>search\<close> fails with
  the \<open>ValueError\<close> of \<open>np.argmax\<close> on an empty sequence, not with \<open>InvalidConfiguration\<close>.
\<close>

theorem search_zero_counterexample:
  "search (go_game (go_init 9)) 0 (go_init 9) always_first = Some (Inl ValueError) \<and>
   search (go_game (go_init 9)) 0 (go_init 9) always_first \<noteq> Some (Inl InvalidConfiguration)"
  by (simp add: search_def best_child_def new_node_def)


text \<open>
  C5, as the program has it. For every \<open>n_simulations\<close> that is zero or negative the loop
  makes no pass (the tree stays the lone root), and \<open>search\<close> fails: with the
  \<open>ValueError\<close> that \<open>np.argmax\<close> raises on the empty list of scores of the root's
  children. The program has no check of the configuration and no \<open>InvalidConfiguration\<close>
  error.
\<close>

theorem search_nonpositive_fails:
  "n \<le> 0 \<Longrightarrow>
     simulations g rnd (nat n) ([new_node s0 None], 0) = Some (Inr ([new_node s0 None], 0)) \<and>
     search g n s0 rnd = Some (Inl ValueError)"
  by (simp add: search_def best_child_def new_node_def)

theorem search_nonpositive_fails_witness:
  "(- 1::int) \<le> 0 \<and>
   search (go_game (go_init 9)) (- 1) (go_init 9) always_first = Some (Inl ValueError)"
  using search_nonpositive_fails [of "- 1" "go_game (go_init 9)" always_first "go_init 9"]
  by simp

subsection \<open>Evaluation on concrete inputs\<close>

lemmas nim_defs = nim_game_def nim_rules_is_terminal_def nim_get_result_def nim_is_terminal_def
  nim_play_def nim_get_legal_moves_def always_first_def

lemmas engine_defs = search_def iteration_def descend_def expand_def untried_def new_node_def
  bump_def best_child_def ucb1_def is_fully_expanded_def

lemmas loop_simps = select.simps random_policy.simps backpropagate.simps

subsection \<open>Scores and the best child\<close>

lemma ucb1_visited:
  "parent (st ! c) = Some p \<Longrightarrow> 1 \<le> visits (st ! c) \<Longrightarrow> 1 \<le> visits (st ! p) \<Longrightarrow>
     ucb1 st c w = Inr (Val (node_score st w p c))"
  by (simp add: ucb1_def node_score_def score_formula_def)

lemma ucb1_all_visited:
  "\<forall>c\<in>set cs. parent (st ! c) = Some p \<and> 1 \<le> visits (st ! c) \<Longrightarrow> 1 \<le> visits (st ! p) \<Longrightarrow>
     ucb1_all st w cs = Inr (map (\<lambda>c. Val (node_score st w p c)) cs)"
  by (induction cs) (simp_all add: ucb1_visited)

text \<open>
  The model of \<open>np.argmax\<close> on scores that are numbers, whatever their values: the index
  it returns holds a maximum, and every score before it is strictly smaller.
\<close>

lemma argmax_from_spec:
  "(argmax_from b (Val bv) i (map Val xs) = b \<and> (\<forall>j<length xs. xs ! j \<le> bv)) \<or>
   (\<exists>j<length xs. argmax_from b (Val bv) i (map Val xs) = i + j \<and> bv < xs ! j \<and>
        (\<forall>l<length xs. xs ! l \<le> xs ! j) \<and> (\<forall>l<j. xs ! l < xs ! j))"
proof (induction xs arbitrary: b bv i)
  case Nil
  show ?case by simp
next
  case (Cons x xs)
  show ?case
  proof (cases "bv < x")
    case True
    have unf: "argmax_from b (Val bv) i (map Val (x # xs)) = argmax_from i (Val x) (Suc i) (map Val xs)"
      using True by simp
    from Cons.IH[of i x "Suc i"] show ?thesis
    proof
      assume a: "argmax_from i (Val x) (Suc i) (map Val xs) = i \<and> (\<forall>j<length xs. xs ! j \<le> x)"
      have "\<forall>l<length (x # xs). (x # xs) ! l \<le> (x # xs) ! 0"
        using a by (auto simp add: nth_Cons split: nat.splits)
      then have "0 < length (x # xs) \<and> argmax_from b (Val bv) i (map Val (x # xs)) = i + 0 \<and>
          bv < (x # xs) ! 0 \<and> (\<forall>l<length (x # xs). (x # xs) ! l \<le> (x # xs) ! 0) \<and>
          (\<forall>l<0. (x # xs) ! l < (x # xs) ! 0)"
        using a unf True by simp
      then show ?thesis by blast
    next
      assume "\<exists>j<length xs. argmax_from i (Val x) (Suc i) (map Val xs) = Suc i + j \<and> x < xs ! j \<and>
        (\<forall>l<length xs. xs ! l \<le> xs ! j) \<and> (\<forall>l<j. xs ! l < xs ! j)"
      then obtain j where j: "j < length xs"
        "argmax_from i (Val x) (Suc i) (map Val xs) = Suc i + j" "x < xs ! j"
        "\<forall>l<length xs. xs ! l \<le> xs ! j" "\<forall>l<j. xs ! l < xs ! j" by blast
      have 1: "\<forall>l<length (x # xs). (x # xs) ! l \<le> (x # xs) ! Suc j"
        using j(3,4) by (auto simp add: nth_Cons split: nat.splits)
      have 2: "\<forall>l<Suc j. (x # xs) ! l < (x # xs) ! Suc j"
        using j(3,5) by (auto simp add: nth_Cons split: nat.splits)
      have "Suc j < length (x # xs) \<and> argmax_from b (Val bv) i (map Val (x # xs)) = i + Suc j \<and>
          bv < (x # xs) ! Suc j"
        using j(1,2,3) unf True by simp
      then show ?thesis using 1 2 by blast
    qed
  next
    case False
    have unf: "argmax_from b (Val bv) i (map Val (x # xs)) = argmax_from b (Val bv) (Suc i) (map Val xs)"
      using False by simp
    from Cons.IH[of b bv "Suc i"] show ?thesis
    proof
      assume a: "argmax_from b (Val bv) (Suc i) (map Val xs) = b \<and> (\<forall>j<length xs. xs ! j \<le> bv)"
      have "\<forall>l<length (x # xs). (x # xs) ! l \<le> bv"
        using a False by (auto simp add: nth_Cons split: nat.splits)
      then show ?thesis using a unf by simp
    next
      assume "\<exists>j<length xs. argmax_from b (Val bv) (Suc i) (map Val xs) = Suc i + j \<and> bv < xs ! j \<and>
        (\<forall>l<length xs. xs ! l \<le> xs ! j) \<and> (\<forall>l<j. xs ! l < xs ! j)"
      then obtain j where j: "j < length xs"
        "argmax_from b (Val bv) (Suc i) (map Val xs) = Suc i + j" "bv < xs ! j"
        "\<forall>l<length xs. xs ! l \<le> xs ! j" "\<forall>l<j. xs ! l < xs ! j" by blast
      have 1: "\<forall>l<length (x # xs). (x # xs) ! l \<le> (x # xs) ! Suc j"
        using j(3,4) False by (auto simp add: nth_Cons split: nat.splits)
      have 2: "\<forall>l<Suc j. (x # xs) ! l < (x # xs) ! Suc j"
        using j(3,5) False by (auto simp add: nth_Cons split: nat.splits)
      have "Suc j < length (x # xs) \<and> argmax_from b (Val bv) i (map Val (x # xs)) = i + Suc j \<and>
          bv < (x # xs) ! Suc j"
        using j(1,2,3) unf by simp
      then show ?thesis using 1 2 by blast
    qed
  qed
qed

lemma argmax_spec:
  assumes "xs \<noteq> []"
  shows "\<exists>k<length xs. argmax (map Val xs) = Inr k \<and>
           (\<forall>l<length xs. xs ! l \<le> xs ! k) \<and> (\<forall>l<k. xs ! l < xs ! k)"
proof -
  obtain x ys where xs: "xs = x # ys" using assms by (cases xs) auto
  have am: "argmax (map Val xs) = Inr (argmax_from 0 (Val x) 1 (map Val ys))" by (simp add: xs)
  from argmax_from_spec[of 0 x 1 ys] show ?thesis
  proof
    assume a: "argmax_from 0 (Val x) 1 (map Val ys) = 0 \<and> (\<forall>j<length ys. ys ! j \<le> x)"
    have "\<forall>l<length xs. xs ! l \<le> xs ! 0"
      using a by (auto simp add: xs nth_Cons split: nat.splits)
    then have "0 < length xs \<and> argmax (map Val xs) = Inr 0 \<and>
       (\<forall>l<length xs. xs ! l \<le> xs ! 0) \<and> (\<forall>l<0. xs ! l < xs ! 0)"
      using a am by (simp add: xs)
    then show ?thesis by blast
  next
    assume "\<exists>j<length ys. argmax_from 0 (Val x) 1 (map Val ys) = 1 + j \<and> x < ys ! j \<and>
        (\<forall>l<length ys. ys ! l \<le> ys ! j) \<and> (\<forall>l<j. ys ! l < ys ! j)"
    then obtain j where j: "j < length ys" "argmax_from 0 (Val x) 1 (map Val ys) = 1 + j"
      "x < ys ! j" "\<forall>l<length ys. ys ! l \<le> ys ! j" "\<forall>l<j. ys ! l < ys ! j" by blast
    have 1: "\<forall>l<length xs. xs ! l \<le> xs ! Suc j"
      using j(3,4) by (auto simp add: xs nth_Cons split: nat.splits)
    have 2: "\<forall>l<Suc j. xs ! l < xs ! Suc j"
      using j(3,5) by (auto simp add: xs nth_Cons split: nat.splits)
    have "Suc j < length xs \<and> argmax (map Val xs) = Inr (Suc j)"
      using j(1,2) am by (simp add: xs)
    then show ?thesis using 1 2 by blast
  qed
qed

subsection \<open>Runs on the take-away game\<close>

text \<open>
  C1, evaluated. One stone is left and player 1 is to move; the search makes one pass.
  Player 1 takes the stone and wins (the outcome is 1). The child, where player 2 is to
  move, was entered by the winner's move and keeps \<open>wins = 0\<close>; the root, where the winner
  is to move, gets \<open>wins = 1\<close>: \<open>_backpropagate\<close> compares the outcome with the node's own
  \<open>current_player\<close>.
\<close>

theorem backpropagate_credits_player_to_move:
  "search nim_game 1 (1, 1) always_first =
     Some (Inr (1, [\<lparr>state = (1, 1), parent = None, children = [1], wins = 1, visits = 1\<rparr>,
                    \<lparr>state = (0, 2), parent = Some 0, children = [], wins = 0, visits = 1\<rparr>]))"
  by (simp add: engine_defs nim_defs loop_simps)

lemma go_empty_board_moves:
  "go_get_legal_moves (go_init 2) = [(0, 0), (0, 1), (1, 0), (1, 1)]"
  by (simp add: go_get_legal_moves_def go_init_def upt_rec numeral_2_eq_2)

text \<open>
  C2, evaluated. Two stones are left, so the legal moves are to take one or two. The first
  expansion of the root plays the first move; the second expansion of the same root plays
  the first move again, since a move is never found among the children's state objects.
  The root is then fully expanded with two children of the same move and none of the other.
  On the bundled game it is the same: on the empty board of size two, both expansions of
  the root play the move \<open>(0, 0)\<close>.
\<close>

theorem expand_repeats_first_move:
  "nim_get_legal_moves (2, 1) = [1, 2] \<and>
   expand nim_game 0 [new_node (2, 1) None] =
     (1, [\<lparr>state = (2, 1), parent = None, children = [1], wins = 0, visits = 0\<rparr>,
          new_node (nim_play 1 (2, 1)) (Some 0)]) \<and>
   expand nim_game 0
       [\<lparr>state = (2, 1), parent = None, children = [1], wins = 0, visits = 0\<rparr>,
        new_node (nim_play 1 (2, 1)) (Some 0)] =
     (2, [\<lparr>state = (2, 1), parent = None, children = [1, 2], wins = 0, visits = 0\<rparr>,
          new_node (nim_play 1 (2, 1)) (Some 0),
          new_node (nim_play 1 (2, 1)) (Some 0)]) \<and>
   is_fully_expanded nim_game
     \<lparr>state = (2, 1), parent = None, children = [1, 2], wins = 0, visits = 0\<rparr> \<and>
   go_get_legal_moves (go_init 2) = [(0, 0), (0, 1), (1, 0), (1, 1)] \<and>
   expand (go_game (go_init 2)) 0 [new_node (go_init 2) None] =
     (1, [\<lparr>state = go_init 2, parent = None, children = [1], wins = 0, visits = 0\<rparr>,
          new_node (go_play (0, 0) (go_init 2)) (Some 0)]) \<and>
   expand (go_game (go_init 2)) 0
       [\<lparr>state = go_init 2, parent = None, children = [1], wins = 0, visits = 0\<rparr>,
        new_node (go_play (0, 0) (go_init 2)) (Some 0)] =
     (2, [\<lparr>state = go_init 2, parent = None, children = [1, 2], wins = 0, visits = 0\<rparr>,
          new_node (go_play (0, 0) (go_init 2)) (Some 0),
          new_node (go_play (0, 0) (go_init 2)) (Some 0)])"
  by (simp add: engine_defs nim_defs go_game_def go_empty_board_moves)

text \<open>
  C3, evaluated. From two stones, the pass expands the root by the move that takes one
  stone: the new node's state has one stone left and player 2 to move. The rollout then
  plays on this very object, and after the pass the node's state is the terminal state with
  no stone left and player 1 to move.
\<close>

theorem rollout_mutates_node_state:
  "descend nim_game [new_node (2, 1) None] =
     Some (Inr (1, [\<lparr>state = (2, 1), parent = None, children = [1], wins = 0, visits = 0\<rparr>,
                    \<lparr>state = (1, 2), parent = Some 0, children = [], wins = 0, visits = 0\<rparr>])) \<and>
   iteration nim_game always_first ([new_node (2, 1) None], 0) =
     Some (Inr ([\<lparr>state = (2, 1), parent = None, children = [1], wins = 0, visits = 1\<rparr>,
                 \<lparr>state = (0, 1), parent = Some 0, children = [], wins = 0, visits = 1\<rparr>], 1))"
  by (simp add: engine_defs nim_defs loop_simps)

subsection \<open>A terminal initial state\<close>

text \<open>
  C4 as stated fails: from a terminal state of the take-away game, a search of one pass
  runs its simulation (the root has been visited once), then fails with the \<open>ValueError\<close> of
  \<open>np.argmax\<close> on the empty list of scores, not with \<open>InvalidStartState\<close>.
\<close>

theorem search_terminal_start_counterexample:
  "simulations nim_game always_first (nat 1) ([new_node (0, 1) None], 0) =
     Some (Inr ([\<lparr>state = (0, 1), parent = None, children = [], wins = 0, visits = 1\<rparr>], 0)) \<and>
   search nim_game 1 (0, 1) always_first = Some (Inl ValueError) \<and>
   search nim_game 1 (0, 1) always_first \<noteq> Some (Inl InvalidStartState)"
  by (simp add: engine_defs nim_defs loop_simps)

lemma terminal_root_iteration:
  assumes "game_is_terminal g [s0] = Inr True" "is_terminal g s0 [] = Inr True"
    "get_result g s0 [] = Inr r"
  shows "iteration g rnd ([\<lparr>state = s0, parent = None, children = [], wins = w, visits = v\<rparr>], k) =
    Some (Inr ([\<lparr>state = s0, parent = None, children = [],
                 wins = (if current_player g s0 = r then w + 1 else w), visits = v + 1\<rparr>], k))"
proof -
  let ?st = "[\<lparr>state = s0, parent = None, children = [], wins = w, visits = v\<rparr>]"
  have sel: "select g 0 ?st = Some (Inr 0)"
    using assms(1) by (subst select.simps) simp
  have des: "descend g ?st = Some (Inr (0, ?st))"
    using assms(1) sel by (simp add: descend_def)
  have rp: "random_policy g rnd k s0 = Some (Inr (r, s0, k))"
    using assms(2,3) by (subst random_policy.simps) simp
  have bp: "backpropagate g (Some 0) r ?st =
      Some [\<lparr>state = s0, parent = None, children = [],
             wins = (if current_player g s0 = r then w + 1 else w), visits = v + 1\<rparr>]"
    by (simp add: backpropagate.simps bump_def)
  show ?thesis using des rp bp by (simp add: iteration_def)
qed

lemma terminal_root_simulations:
  assumes "game_is_terminal g [s0] = Inr True" "is_terminal g s0 [] = Inr True"
    "get_result g s0 [] = Inr r"
  shows "\<exists>w'. simulations g rnd m
            ([\<lparr>state = s0, parent = None, children = [], wins = w, visits = v\<rparr>], k) =
          Some (Inr ([\<lparr>state = s0, parent = None, children = [], wins = w', visits = v + m\<rparr>], k))"
proof (induction m arbitrary: w v)
  case 0
  show ?case by simp
next
  case (Suc m)
  from Suc.IH[of "if current_player g s0 = r then w + 1 else w" "v + 1"]
  show ?case by (simp add: terminal_root_iteration[OF assms])
qed

text \<open>
  C4, as the program has it. When the initial state is terminal for the game object and
  for the state itself, and the state resolves an outcome, the search makes every one of its
  passes on the lone root (each counts one visit there), and then fails with the
  \<open>ValueError\<close> that \<open>np.argmax\<close> raises when the best child is picked from the empty set
  of children.
\<close>

theorem search_terminal_start_fails:
  assumes "game_is_terminal g [s0] = Inr True" "is_terminal g s0 [] = Inr True"
    "get_result g s0 [] = Inr r"
  shows "(\<exists>w. simulations g rnd (nat n) ([new_node s0 None], 0) =
            Some (Inr ([\<lparr>state = s0, parent = None, children = [], wins = w, visits = nat n\<rparr>], 0))) \<and>
         search g n s0 rnd = Some (Inl ValueError)"
proof -
  from terminal_root_simulations[OF assms, of rnd "nat n" 0 0 0]
  obtain w where w: "simulations g rnd (nat n) ([new_node s0 None], 0) =
      Some (Inr ([\<lparr>state = s0, parent = None, children = [], wins = w, visits = nat n\<rparr>], 0))"
    by (auto simp add: new_node_def)
  have "search g n s0 rnd = Some (Inl ValueError)"
    by (simp add: search_def w best_child_def)
  then show ?thesis using w by blast
qed

theorem search_terminal_start_fails_witness:
  "simulations nim_game always_first (nat 3) ([new_node (0, 2) None], 0) =
     Some (Inr ([\<lparr>state = (0, 2), parent = None, children = [], wins = 0, visits = 3\<rparr>], 0)) \<and>
   search nim_game 3 (0, 2) always_first = Some (Inl ValueError)"
proof -
  have h1: "game_is_terminal nim_game [(0, 2)] = Inr True" by (simp add: nim_defs)
  have h2: "is_terminal nim_game (0, 2) [] = Inr True" by (simp add: nim_defs)
  have h3: "get_result nim_game (0, 2) [] = Inr 1" by (simp add: nim_defs)
  have e: "simulations nim_game always_first (nat 3) ([new_node (0, 2) None], 0) =
     Some (Inr ([\<lparr>state = (0, 2), parent = None, children = [], wins = 0, visits = 3\<rparr>], 0))"
    by (simp add: engine_defs nim_defs loop_simps numeral_3_eq_3)
  show ?thesis using search_terminal_start_fails[OF h1 h2 h3, of always_first 3] e by simp
qed


subsection \<open>One pass of the loop of backpropagation\<close>

lemma visits_bump:
  "N < length st \<Longrightarrow>
     visits (st[j := bump g r (st ! j)] ! N) = visits (st ! N) + (if N = j then 1 else 0)"
  by (cases "N = j") auto

lemma sum_visits_bump:
  "distinct cs \<Longrightarrow> \<forall>c\<in>set cs. c < length st \<Longrightarrow>
     sum_list (map (\<lambda>c. visits (st[j := bump g r (st ! j)] ! c)) cs) =
     sum_list (map (\<lambda>c. visits (st ! c)) cs) + (if j \<in> set cs then 1 else 0)"
proof (induction cs)
  case Nil
  show ?case by simp
next
  case (Cons c cs)
  have c: "c < length st" using Cons.prems(2) by simp
  have IH: "sum_list (map (\<lambda>c. visits (st[j := bump g r (st ! j)] ! c)) cs) =
     sum_list (map (\<lambda>c. visits (st ! c)) cs) + (if j \<in> set cs then 1 else 0)"
    using Cons.IH Cons.prems by simp
  have nc: "c \<notin> set cs" using Cons.prems(1) by simp
  show ?case using IH nc visits_bump[OF c, of j g r] by auto
qed

lemma child_visits_bump:
  assumes "tree_inv st" "N < length st"
  shows "child_visits (st[j := bump g r (st ! j)]) N =
         child_visits st N + (if j \<in> set (children (st ! N)) then 1 else 0)"
proof -
  have ch: "children (st[j := bump g r (st ! j)] ! N) = children (st ! N)"
    using assms(2) by (simp add: nth_upd_field)
  have d: "distinct (children (st ! N))" using tree_inv_distinct[OF assms] .
  have b: "\<forall>c\<in>set (children (st ! N)). c < length st"
    using tree_inv_child[OF assms] by blast
  show ?thesis unfolding child_visits_def ch using sum_visits_bump[OF d b, of j g r] by simp
qed

lemma child_of_parent:
  "tree_inv st \<Longrightarrow> N < length st \<Longrightarrow> j \<in> set (children (st ! N)) \<Longrightarrow> parent (st ! j) = Some N"
  using tree_inv_child by blast

lemma backpropagate_root_visits:
  fixes st :: "'s store" and g :: "('s, 'm, 'p) game"
  assumes ti: "tree_inv st" and i: "i < length st"
  shows "\<exists>st'. backpropagate g (Some i) r st = Some st' \<and> same_shape st st' \<and>
           visits (st' ! 0) = Suc (visits (st ! 0))"
proof -
  let ?I = "\<lambda>(cur :: nat option) (s :: 's store). visits (s ! 0) = visits (st ! 0) + (if cur = None then 1 else 0)"
  have init: "?I (Some i) st" by simp
  have "\<exists>st'. backpropagate g (Some i) r st = Some st' \<and> ?I None st' \<and> same_shape st st'"
  proof (rule backpropagate_rule[of st i ?I g r, OF ti i init])
    fix j s assume t: "tree_inv s" and j: "j < length s" and I: "?I (Some j) s"
    have z: "0 < length s" "parent (s ! 0) = None" using tree_inv_root[OF t] by auto
    show "?I (parent (s ! j)) (s[j := bump g r (s ! j)])"
    proof (cases "parent (s ! j)")
      case None
      then have "j = 0" using tree_inv_nonroot[OF t j] by simp
      then show ?thesis using None I z visits_bump[OF z(1), of j g r] by simp
    next
      case (Some q)
      have "j \<noteq> 0"
      proof
        assume "j = 0"
        then show False using Some z(2) by simp
      qed
      then show ?thesis using Some I visits_bump[OF z(1), of j g r] by simp
    qed
  qed
  then obtain st' where "backpropagate g (Some i) r st = Some st'" "?I None st'" "same_shape st st'"
    by blast
  then show ?thesis by simp
qed

lemma backpropagate_monotone:
  fixes st :: "'s store" and g :: "('s, 'm, 'p) game"
  assumes ti: "tree_inv st" and i: "i < length st"
  shows "\<exists>st'. backpropagate g (Some i) r st = Some st' \<and>
           (\<forall>N<length st. visits (st ! N) \<le> visits (st' ! N)) \<and> visits (st ! i) < visits (st' ! i)"
proof -
  let ?I = "\<lambda>(cur :: nat option) (s :: 's store). (\<forall>N<length st. visits (st ! N) \<le> visits (s ! N)) \<and>
                      (cur \<noteq> Some i \<longrightarrow> visits (st ! i) < visits (s ! i))"
  have init: "?I (Some i) st" by simp
  have "\<exists>st'. backpropagate g (Some i) r st = Some st' \<and> ?I None st' \<and> same_shape st st'"
  proof (rule backpropagate_rule[of st i ?I g r, OF ti i init])
    fix j s assume t: "tree_inv s" and sh: "same_shape st s" and j: "j < length s"
      and I: "?I (Some j) s"
    have len: "length s = length st" using sh by (simp add: same_shape_def)
    have a: "\<forall>N<length st. visits (st ! N) \<le> visits (s[j := bump g r (s ! j)] ! N)"
    proof (intro allI impI)
      fix N assume N: "N < length st"
      then have "visits (st ! N) \<le> visits (s ! N)" using I by simp
      then show "visits (st ! N) \<le> visits (s[j := bump g r (s ! j)] ! N)"
        using visits_bump[of N s j g r] N len by simp
    qed
    have b: "parent (s ! j) \<noteq> Some i \<longrightarrow> visits (st ! i) < visits (s[j := bump g r (s ! j)] ! i)"
    proof (cases "j = i")
      case True
      have "visits (st ! i) \<le> visits (s ! i)" using I i by simp
      then show ?thesis using True visits_bump[of i s j g r] i len by simp
    next
      case False
      then have "visits (st ! i) < visits (s ! i)" using I by simp
      then show ?thesis using visits_bump[of i s j g r] i len by simp
    qed
    show "?I (parent (s ! j)) (s[j := bump g r (s ! j)])" using a b by blast
  qed
  then obtain st' where "backpropagate g (Some i) r st = Some st'" "?I None st'" "same_shape st st'"
    by blast
  then show ?thesis by simp
qed

lemma backpropagate_child_visits:
  fixes st :: "'s store" and g :: "('s, 'm, 'p) game"
  assumes ti: "tree_inv st" and i: "i < length st"
    and cv: "\<forall>N<length st. child_visits st N \<le> visits (st ! N)"
  shows "\<exists>st'. backpropagate g (Some i) r st = Some st' \<and>
           (\<forall>N<length st. child_visits st' N \<le> visits (st' ! N))"
proof -
  let ?I = "\<lambda>(cur :: nat option) (s :: 's store).
     \<forall>N<length st. child_visits s N \<le> visits (s ! N) + (if cur = Some N then 1 else 0)"
  have init: "?I (Some i) st" using cv by (simp add: le_SucI)
  have "\<exists>st'. backpropagate g (Some i) r st = Some st' \<and> ?I None st' \<and> same_shape st st'"
  proof (rule backpropagate_rule[of st i ?I g r, OF ti i init])
    fix j s assume t: "tree_inv s" and sh: "same_shape st s" and j: "j < length s"
      and I: "?I (Some j) s"
    have len: "length s = length st" using sh by (simp add: same_shape_def)
    show "?I (parent (s ! j)) (s[j := bump g r (s ! j)])"
    proof (intro allI impI)
      fix N assume N: "N < length st"
      have Ns: "N < length s" using N len by simp
      have cvN: "child_visits (s[j := bump g r (s ! j)]) N =
           child_visits s N + (if j \<in> set (children (s ! N)) then 1 else 0)"
        by (rule child_visits_bump[OF t Ns])
      have vN: "visits (s[j := bump g r (s ! j)] ! N) = visits (s ! N) + (if N = j then 1 else 0)"
        by (rule visits_bump[OF Ns])
      have IN: "child_visits s N \<le> visits (s ! N) + (if j = N then 1 else 0)"
        using I N by auto
      show "child_visits (s[j := bump g r (s ! j)]) N
            \<le> visits (s[j := bump g r (s ! j)] ! N) + (if parent (s ! j) = Some N then 1 else 0)"
      proof (cases "j \<in> set (children (s ! N))")
        case True
        have pj: "parent (s ! j) = Some N" using child_of_parent[OF t Ns True] .
        have "N < j" using tree_inv_parent_less[OF t j pj] .
        then show ?thesis using cvN vN IN True pj by simp
      next
        case False
        show ?thesis using cvN vN IN False by auto
      qed
    qed
  qed
  then obtain st' where "backpropagate g (Some i) r st = Some st'" "?I None st'" "same_shape st st'"
    by blast
  then show ?thesis by simp
qed

lemma backpropagate_root_equality:
  fixes st :: "'s store" and g :: "('s, 'm, 'p) game"
  assumes ti: "tree_inv st" and i: "i < length st" and i0: "i \<noteq> 0"
    and eq: "child_visits st 0 = visits (st ! 0)"
  shows "\<exists>st'. backpropagate g (Some i) r st = Some st' \<and> child_visits st' 0 = visits (st' ! 0)"
proof -
  let ?I = "\<lambda>(cur :: nat option) (s :: 's store).
     child_visits s 0 = visits (s ! 0) + (if cur = Some 0 then 1 else 0)"
  have init: "?I (Some i) st" using eq i0 by simp
  have "\<exists>st'. backpropagate g (Some i) r st = Some st' \<and> ?I None st' \<and> same_shape st st'"
  proof (rule backpropagate_rule[of st i ?I g r, OF ti i init])
    fix j s assume t: "tree_inv s" and sh: "same_shape st s" and j: "j < length s"
      and I: "?I (Some j) s"
    have z: "0 < length s" "parent (s ! 0) = None" using tree_inv_root[OF t] by auto
    have cv0: "child_visits (s[j := bump g r (s ! j)]) 0 =
           child_visits s 0 + (if j \<in> set (children (s ! 0)) then 1 else 0)"
      by (rule child_visits_bump[OF t z(1)])
    have v0: "visits (s[j := bump g r (s ! j)] ! 0) = visits (s ! 0) + (if 0 = j then 1 else 0)"
      by (rule visits_bump[OF z(1)])
    have I0: "child_visits s 0 = visits (s ! 0) + (if j = 0 then 1 else 0)"
      using I by simp
    show "?I (parent (s ! j)) (s[j := bump g r (s ! j)])"
    proof (cases "parent (s ! j) = Some 0")
      case True
      have "j \<in> set (children (s ! 0))" using tree_inv_parent_child[OF t j True] .
      moreover have "j \<noteq> 0" using tree_inv_parent_less[OF t j True] by simp
      ultimately show ?thesis using cv0 v0 I0 True by simp
    next
      case False
      have "j \<notin> set (children (s ! 0))"
      proof
        assume "j \<in> set (children (s ! 0))"
        from child_of_parent[OF t z(1) this] False show False by simp
      qed
      then show ?thesis using cv0 v0 I0 False by auto
    qed
  qed
  then obtain st' where "backpropagate g (Some i) r st = Some st'" "?I None st'" "same_shape st st'"
    by blast
  then show ?thesis by simp
qed

subsection \<open>Appending a node\<close>

lemma expand_cases:
  "expand g i st = (i, st) \<or> (\<exists>s. expand g i st = (length st, grow st i s))"
  by (auto simp add: expand_def grow_def split: option.splits)

lemma length_grow [simp]: "length (grow st i s) = Suc (length st)"
  by (simp add: grow_def)

lemma grow_new [simp]: "grow st i s ! length st = new_node s (Some i)"
  by (simp add: grow_def nth_append)

lemma grow_old_parent: "k < length st \<Longrightarrow> parent (grow st i s ! k) = parent (st ! k)"
  by (simp add: grow_def nth_append nth_upd_field)

lemma grow_old_visits: "k < length st \<Longrightarrow> visits (grow st i s ! k) = visits (st ! k)"
  by (simp add: grow_def nth_append nth_upd_field)

lemma grow_old_children:
  "k < length st \<Longrightarrow>
     children (grow st i s ! k) = (if k = i then children (st ! i) @ [length st] else children (st ! k))"
  by (simp add: grow_def nth_append)

lemma new_node_fields [simp]:
  "parent (new_node s p) = p" "children (new_node s p) = []" "visits (new_node s p) = 0"
  "state (new_node s p) = s" "wins (new_node s p) = 0"
  by (simp_all add: new_node_def)

lemma tree_inv_grow:
  assumes ti: "tree_inv st" and i: "i < length st"
  shows "tree_inv (grow st i s)"
proof -
  let ?g = "grow st i s"
  let ?n = "length st"
  have z: "0 < ?n" "parent (st ! 0) = None" using tree_inv_root[OF ti] by auto
  have a: "?g \<noteq> []" by (simp add: grow_def)
  have b: "parent (?g ! 0) = None" using z by (simp add: grow_old_parent)
  have c: "\<forall>k<length ?g. \<forall>p. parent (?g ! k) = Some p \<longrightarrow> p < k \<and> k \<in> set (children (?g ! p))"
  proof (intro allI impI)
    fix k p assume k: "k < length ?g" and p: "parent (?g ! k) = Some p"
    show "p < k \<and> k \<in> set (children (?g ! p))"
    proof (cases "k = ?n")
      case True
      then have "p = i" using p by simp
      then show ?thesis using True i by (simp add: grow_old_children)
    next
      case False
      then have kl: "k < ?n" using k by simp
      have pp: "parent (st ! k) = Some p" using p kl by (simp add: grow_old_parent)
      have lt: "p < k" using tree_inv_parent_less[OF ti kl pp] .
      have mem: "k \<in> set (children (st ! p))" using tree_inv_parent_child[OF ti kl pp] .
      have "p < ?n" using lt kl by simp
      then show ?thesis using lt mem by (auto simp add: grow_old_children)
    qed
  qed
  have d: "\<forall>k<length ?g. k \<noteq> 0 \<longrightarrow> parent (?g ! k) \<noteq> None"
  proof (intro allI impI)
    fix k assume k: "k < length ?g" and k0: "k \<noteq> 0"
    show "parent (?g ! k) \<noteq> None"
    proof (cases "k = ?n")
      case True
      then show ?thesis by simp
    next
      case False
      then have kl: "k < ?n" using k by simp
      then show ?thesis using tree_inv_nonroot[OF ti kl] k0 by (auto simp add: grow_old_parent)
    qed
  qed
  have old: "\<And>k c. k < ?n \<Longrightarrow> c \<in> set (children (st ! k)) \<Longrightarrow>
               c < length ?g \<and> parent (?g ! c) = Some k"
  proof -
    fix k c assume kl: "k < ?n" and c: "c \<in> set (children (st ! k))"
    have "c < ?n \<and> parent (st ! c) = Some k" using tree_inv_child[OF ti kl c] .
    then show "c < length ?g \<and> parent (?g ! c) = Some k" by (simp add: grow_old_parent)
  qed
  have e: "\<forall>k<length ?g. \<forall>c\<in>set (children (?g ! k)). c < length ?g \<and> parent (?g ! c) = Some k"
  proof (intro allI impI ballI)
    fix k c assume k: "k < length ?g" and c: "c \<in> set (children (?g ! k))"
    show "c < length ?g \<and> parent (?g ! c) = Some k"
    proof (cases "k = ?n")
      case True
      then show ?thesis using c by simp
    next
      case False
      then have kl: "k < ?n" using k by simp
      show ?thesis
      proof (cases "c = ?n")
        case True
        have "k = i"
        proof (rule ccontr)
          assume "k \<noteq> i"
          then have "c \<in> set (children (st ! k))" using c kl by (simp add: grow_old_children)
          then have "c < ?n" using tree_inv_child[OF ti kl] by blast
          then show False using True by simp
        qed
        then show ?thesis using True by simp
      next
        case False
        then have "c \<in> set (children (st ! k))" using c kl
          by (auto simp add: grow_old_children split: if_splits)
        then show ?thesis by (rule old[OF kl])
      qed
    qed
  qed
  have f: "\<forall>k<length ?g. distinct (children (?g ! k))"
  proof (intro allI impI)
    fix k assume k: "k < length ?g"
    show "distinct (children (?g ! k))"
    proof (cases "k = ?n")
      case True
      then show ?thesis by simp
    next
      case False
      then have kl: "k < ?n" using k by simp
      have dk: "distinct (children (st ! k))" using tree_inv_distinct[OF ti kl] .
      have "?n \<notin> set (children (st ! k))"
      proof
        assume "?n \<in> set (children (st ! k))"
        then have "?n < ?n" using tree_inv_child[OF ti kl] by blast
        then show False by simp
      qed
      then show ?thesis using dk kl by (auto simp add: grow_old_children)
    qed
  qed
  show ?thesis unfolding tree_inv_def
    by (intro conjI) (rule a, rule b, rule c, rule d, rule e, rule f)
qed

lemma sum_visits_grow:
  "\<forall>c\<in>set cs. c < length st \<Longrightarrow>
     sum_list (map (\<lambda>c. visits (grow st i s ! c)) cs) = sum_list (map (\<lambda>c. visits (st ! c)) cs)"
  by (induction cs) (simp_all add: grow_old_visits)

lemma child_visits_grow:
  assumes ti: "tree_inv st" and i: "i < length st" and k: "k < length st"
  shows "child_visits (grow st i s) k = child_visits st k"
proof -
  have b: "\<forall>c\<in>set (children (st ! k)). c < length st" using tree_inv_child[OF ti k] by blast
  show ?thesis
    using sum_visits_grow[OF b, of i s] k
    by (auto simp add: child_visits_def grow_old_children)
qed

lemma child_visits_grow_new: "child_visits (grow st i s) (length st) = 0"
  by (simp add: child_visits_def)

subsection \<open>The invariant of the search\<close>

lemma search_inv_tree: "search_inv st \<Longrightarrow> tree_inv st"
  by (simp add: search_inv_def)

lemma search_inv_visited: "search_inv st \<Longrightarrow> i < length st \<Longrightarrow> i \<noteq> 0 \<Longrightarrow> 1 \<le> visits (st ! i)"
  by (simp add: search_inv_def)

lemma search_inv_sum: "search_inv st \<Longrightarrow> i < length st \<Longrightarrow> child_visits st i \<le> visits (st ! i)"
  by (simp add: search_inv_def)

lemma search_inv_mid: "search_inv st \<Longrightarrow> j < length st \<Longrightarrow> mid_inv j st"
  by (simp add: search_inv_def mid_inv_def)

subsection \<open>The state written back after the rollout\<close>

lemma visits_set_state:
  "N < length st \<Longrightarrow> visits (st[j := (st ! j)\<lparr>state := s\<rparr>] ! N) = visits (st ! N)"
  by (simp add: nth_upd_field)

lemma sum_visits_set_state:
  "\<forall>c\<in>set cs. c < length st \<Longrightarrow>
     sum_list (map (\<lambda>c. visits (st[j := (st ! j)\<lparr>state := s\<rparr>] ! c)) cs) =
     sum_list (map (\<lambda>c. visits (st ! c)) cs)"
  by (induction cs) (simp_all add: visits_set_state)

lemma child_visits_set_state:
  assumes ti: "tree_inv st" and k: "k < length st"
  shows "child_visits (st[j := (st ! j)\<lparr>state := s\<rparr>]) k = child_visits st k"
proof -
  have b: "\<forall>c\<in>set (children (st ! k)). c < length st" using tree_inv_child[OF ti k] by blast
  have ch: "children (st[j := (st ! j)\<lparr>state := s\<rparr>] ! k) = children (st ! k)"
    using k by (simp add: nth_upd_field)
  show ?thesis unfolding child_visits_def ch by (rule sum_visits_set_state[OF b])
qed

lemma mid_inv_set_state:
  assumes "mid_inv j st"
  shows "mid_inv j (st[j := (st ! j)\<lparr>state := s\<rparr>])"
proof -
  have ti: "tree_inv st" using assms by (simp add: mid_inv_def)
  have ti': "tree_inv (st[j := (st ! j)\<lparr>state := s\<rparr>])"
    using same_shape_state ti by (rule same_shape_tree_inv)
  show ?thesis using assms ti'
    by (simp add: mid_inv_def visits_set_state child_visits_set_state[OF ti])
qed

subsection \<open>Expansion\<close>

lemma mid_inv_grow:
  assumes si: "search_inv st" and i: "i < length st"
  shows "mid_inv (length st) (grow st i s)"
proof -
  have ti: "tree_inv st" using si by (rule search_inv_tree)
  have a: "tree_inv (grow st i s)" by (rule tree_inv_grow[OF ti i])
  have b: "\<forall>k<length (grow st i s). k \<noteq> 0 \<longrightarrow> k \<noteq> length st \<longrightarrow> 1 \<le> visits (grow st i s ! k)"
  proof (intro allI impI)
    fix k assume "k < length (grow st i s)" "k \<noteq> 0" "k \<noteq> length st"
    then have kl: "k < length st" by simp
    show "1 \<le> visits (grow st i s ! k)"
      using search_inv_visited[OF si kl \<open>k \<noteq> 0\<close>] kl by (simp add: grow_old_visits)
  qed
  have c: "\<forall>k<length (grow st i s). child_visits (grow st i s) k \<le> visits (grow st i s ! k)"
  proof (intro allI impI)
    fix k assume k: "k < length (grow st i s)"
    show "child_visits (grow st i s) k \<le> visits (grow st i s ! k)"
    proof (cases "k = length st")
      case True
      then show ?thesis by (simp add: child_visits_grow_new)
    next
      case False
      then have kl: "k < length st" using k by simp
      show ?thesis using search_inv_sum[OF si kl] kl
        by (simp add: child_visits_grow[OF ti i kl] grow_old_visits)
    qed
  qed
  show ?thesis unfolding mid_inv_def using a b c by simp
qed

lemma expand_mid:
  assumes si: "search_inv st" and i: "i < length st" and ex: "expand g i st = (j, st1)"
  shows "mid_inv j st1 \<and> visits (st1 ! 0) = visits (st ! 0) \<and> child_visits st1 0 = child_visits st 0"
proof -
  have ti: "tree_inv st" using si by (rule search_inv_tree)
  have z: "0 < length st" using tree_inv_root[OF ti] by simp
  from expand_cases[of g i st] show ?thesis
  proof
    assume "expand g i st = (i, st)"
    then have "j = i" "st1 = st" using ex by simp_all
    then show ?thesis using search_inv_mid[OF si i] by simp
  next
    assume "\<exists>s. expand g i st = (length st, grow st i s)"
    then obtain s where "expand g i st = (length st, grow st i s)" by blast
    then have e: "j = length st" "st1 = grow st i s" using ex by simp_all
    show ?thesis unfolding e
      using mid_inv_grow[OF si i, of s] z
      by (simp add: grow_old_visits child_visits_grow[OF ti i z])
  qed
qed

subsection \<open>Selection stays inside the tree\<close>

lemma argmax_from_range:
  "argmax_from b bv i xs = b \<or> (i \<le> argmax_from b bv i xs \<and> argmax_from b bv i xs < i + length xs)"
proof (induction xs arbitrary: b bv i)
  case Nil
  show ?case by simp
next
  case (Cons x xs)
  show ?case
  proof (cases "score_gt x bv")
    case True
    from Cons.IH[of i x "Suc i"] True show ?thesis by auto
  next
    case False
    from Cons.IH[of b bv "Suc i"] False show ?thesis by auto
  qed
qed

lemma argmax_bound: "argmax xs = Inr k \<Longrightarrow> k < length xs"
proof (cases xs)
  case Nil
  assume "argmax xs = Inr k"
  then show ?thesis using Nil by simp
next
  case (Cons x ys)
  assume "argmax xs = Inr k"
  then have "k = argmax_from 0 x 1 ys" using Cons by simp
  then show ?thesis using argmax_from_range[of 0 x 1 ys] Cons by auto
qed

lemma ucb1_all_length: "ucb1_all st w cs = Inr ws \<Longrightarrow> length ws = length cs"
proof (induction cs arbitrary: ws)
  case Nil
  then show ?case by simp
next
  case (Cons c cs)
  then show ?case by (auto split: sum.splits)
qed

lemma best_child_member: "best_child st i w = Inr c \<Longrightarrow> c \<in> set (children (st ! i))"
proof -
  assume bc: "best_child st i w = Inr c"
  then obtain ws where ws: "ucb1_all st w (children (st ! i)) = Inr ws"
    by (auto simp add: best_child_def split: sum.splits)
  from bc ws obtain k where k: "argmax ws = Inr k" "c = children (st ! i) ! k"
    by (auto simp add: best_child_def split: sum.splits)
  have "k < length (children (st ! i))" using argmax_bound[OF k(1)] ucb1_all_length[OF ws] by simp
  then show ?thesis using k(2) by simp
qed

lemma select_bound:
  fixes g :: "('s, 'm, 'p) game" and st :: "'s store"
  assumes sel: "select g i st = Some (Inr j)" and ti: "tree_inv st" and i: "i < length st"
  shows "j < length st"
proof -
  have "tree_inv st \<longrightarrow> i < length st \<longrightarrow> (\<forall>k. (Inr j :: error + nat) = Inr k \<longrightarrow> k < length st)"
  proof (rule select.raw_induct[where P = "\<lambda>(g :: ('s, 'm, 'p) game) i (st :: 's store) y.
        tree_inv st \<longrightarrow> i < length st \<longrightarrow> (\<forall>k. y = Inr k \<longrightarrow> k < length st)", OF _ sel])
    fix f :: "('s, 'm, 'p) game \<Rightarrow> nat \<Rightarrow> 's store \<Rightarrow> (error + nat) option"
    fix g :: "('s, 'm, 'p) game" and i and st :: "'s store" and y
    assume IH: "\<And>g i st y. f g i st = Some y \<Longrightarrow>
        tree_inv st \<longrightarrow> i < length st \<longrightarrow> (\<forall>k. y = Inr k \<longrightarrow> k < length st)"
      and body: "(case game_is_terminal g [state (st ! i)] of
           Inl e \<Rightarrow> Some (Inl e)
         | Inr t \<Rightarrow>
             if \<not> t \<and> is_fully_expanded g (st ! i)
             then case best_child st i (141 / 100) of Inl e \<Rightarrow> Some (Inl e) | Inr c \<Rightarrow> f g c st
             else Some (Inr i)) = Some y"
    show "tree_inv st \<longrightarrow> i < length st \<longrightarrow> (\<forall>k. y = Inr k \<longrightarrow> k < length st)"
    proof (intro impI allI)
      fix k assume ti: "tree_inv st" and i: "i < length st" and y: "y = Inr k"
      show "k < length st"
      proof (cases "game_is_terminal g [state (st ! i)]")
        case (Inl e)
        then show ?thesis using body y by simp
      next
        case (Inr t)
        show ?thesis
        proof (cases "\<not> t \<and> is_fully_expanded g (st ! i)")
          case True
          show ?thesis
          proof (cases "best_child st i (141 / 100)")
            case (Inl e)
            then show ?thesis using body y Inr True by simp
          next
            case bc: (Inr c)
            have sel: "f g c st = Some y" using body Inr True bc by simp
            have "c \<in> set (children (st ! i))" using best_child_member[OF bc] .
            then have cl: "c < length st" using tree_inv_child[OF ti i] by blast
            from IH[OF sel] ti cl y show ?thesis by blast
          qed
        next
          case False
          then have "y = Inr i" using body Inr by auto
          then show ?thesis using y i by simp
        qed
      qed
    qed
  qed
  then show ?thesis using ti i by simp
qed

subsection \<open>Passes preserve the invariant\<close>

lemma descend_mid:
  fixes g :: "('s, 'm, 'p) game" and st :: "'s store"
  assumes si: "search_inv st" and de: "descend g st = Some (Inr (j, st1))"
  shows "mid_inv j st1 \<and> visits (st1 ! 0) = visits (st ! 0) \<and> child_visits st1 0 = child_visits st 0"
proof -
  have ti: "tree_inv st" using si by (rule search_inv_tree)
  have z: "0 < length st" using tree_inv_root[OF ti] by simp
  from de obtain i where sel: "select g 0 st = Some (Inr i)"
    by (auto simp add: descend_def split: option.splits sum.splits)
  have i: "i < length st" using select_bound[OF sel ti z] .
  from de sel obtain t where t: "game_is_terminal g [state (st ! i)] = Inr t"
    by (auto simp add: descend_def split: sum.splits)
  have res: "(j, st1) = (if \<not> t then expand g i st else (i, st))"
    using de sel t by (simp add: descend_def)
  show ?thesis
  proof (cases t)
    case True
    then have "j = i" "st1 = st" using res by simp_all
    then show ?thesis using search_inv_mid[OF si i] by simp
  next
    case False
    then have "expand g i st = (j, st1)" using res by simp
    then show ?thesis by (rule expand_mid[OF si i])
  qed
qed

lemma backpropagate_search_inv:
  fixes g :: "('s, 'm, 'p) game" and st :: "'s store"
  assumes mi: "mid_inv j st"
  shows "\<exists>st'. backpropagate g (Some j) r st = Some st' \<and> search_inv st' \<and>
           visits (st' ! 0) = Suc (visits (st ! 0)) \<and>
           (j \<noteq> 0 \<longrightarrow> child_visits st 0 = visits (st ! 0) \<longrightarrow> child_visits st' 0 = visits (st' ! 0))"
proof -
  have ti: "tree_inv st" and j: "j < length st"
    and vis: "\<forall>i<length st. i \<noteq> 0 \<longrightarrow> i \<noteq> j \<longrightarrow> 1 \<le> visits (st ! i)"
    and cv: "\<forall>i<length st. child_visits st i \<le> visits (st ! i)"
    using mi by (simp_all add: mid_inv_def)
  from backpropagate_root_visits[OF ti j, of g r] obtain st' where
    bp: "backpropagate g (Some j) r st = Some st'" and sh: "same_shape st st'"
    and rv: "visits (st' ! 0) = Suc (visits (st ! 0))" by blast
  have len: "length st' = length st" using sh by (simp add: same_shape_def)
  have ti': "tree_inv st'" using sh ti by (rule same_shape_tree_inv)
  from backpropagate_monotone[OF ti j, of g r] bp
  have mono: "\<forall>N<length st. visits (st ! N) \<le> visits (st' ! N)"
    and strict: "visits (st ! j) < visits (st' ! j)" by auto
  from backpropagate_child_visits[OF ti j cv, of g r] bp
  have cv': "\<forall>N<length st. child_visits st' N \<le> visits (st' ! N)" by auto
  have vis': "\<forall>i<length st'. i \<noteq> 0 \<longrightarrow> 1 \<le> visits (st' ! i)"
  proof (intro allI impI)
    fix i assume i: "i < length st'" and i0: "i \<noteq> 0"
    have il: "i < length st" using i len by simp
    show "1 \<le> visits (st' ! i)"
    proof (cases "i = j")
      case True
      then show ?thesis using strict by simp
    next
      case False
      have "1 \<le> visits (st ! i)" using vis il i0 False by simp
      moreover have "visits (st ! i) \<le> visits (st' ! i)" using mono il by simp
      ultimately show ?thesis by simp
    qed
  qed
  have si': "search_inv st'" unfolding search_inv_def using ti' vis' cv' len by simp
  have eq: "j \<noteq> 0 \<longrightarrow> child_visits st 0 = visits (st ! 0) \<longrightarrow> child_visits st' 0 = visits (st' ! 0)"
  proof (intro impI)
    assume j0: "j \<noteq> 0" and e: "child_visits st 0 = visits (st ! 0)"
    from backpropagate_root_equality[OF ti j j0 e, of g r] bp
    show "child_visits st' 0 = visits (st' ! 0)" by auto
  qed
  show ?thesis using bp si' rv eq by blast
qed

lemma iteration_inv:
  fixes g :: "('s, 'm, 'p) game" and st :: "'s store"
  assumes si: "search_inv st" and it: "iteration g rnd (st, k) = Some (Inr (st', k'))"
  shows "search_inv st' \<and> visits (st' ! 0) = Suc (visits (st ! 0)) \<and>
         (\<exists>j st1. descend g st = Some (Inr (j, st1)) \<and>
            (j \<noteq> 0 \<longrightarrow> child_visits st 0 = visits (st ! 0) \<longrightarrow> child_visits st' 0 = visits (st' ! 0)))"
proof -
  from it obtain j st1 where de: "descend g st = Some (Inr (j, st1))"
    by (auto simp add: iteration_def split: option.splits sum.splits)
  from it de obtain r s' where rp: "random_policy g rnd k (state (st1 ! j)) = Some (Inr (r, s', k'))"
    and bp: "backpropagate g (Some j) r (st1[j := (st1 ! j)\<lparr>state := s'\<rparr>]) = Some st'"
    by (auto simp add: iteration_def split: option.splits sum.splits)
  let ?st2 = "st1[j := (st1 ! j)\<lparr>state := s'\<rparr>]"
  from descend_mid[OF si de] have mi: "mid_inv j st1" and v0: "visits (st1 ! 0) = visits (st ! 0)"
    and c0: "child_visits st1 0 = child_visits st 0" by simp_all
  have ti1: "tree_inv st1" and z: "0 < length st1"
    using mi tree_inv_root[of st1] by (simp_all add: mid_inv_def)
  have mi2: "mid_inv j ?st2" using mi by (rule mid_inv_set_state)
  have v2: "visits (?st2 ! 0) = visits (st ! 0)" using v0 z by (simp add: visits_set_state)
  have c2: "child_visits ?st2 0 = child_visits st 0"
    using c0 by (simp add: child_visits_set_state[OF ti1 z])
  from backpropagate_search_inv[OF mi2, of g r] bp
  have si': "search_inv st'" and rv: "visits (st' ! 0) = Suc (visits (?st2 ! 0))"
    and eq: "j \<noteq> 0 \<longrightarrow> child_visits ?st2 0 = visits (?st2 ! 0) \<longrightarrow> child_visits st' 0 = visits (st' ! 0)"
    by auto
  have "j \<noteq> 0 \<longrightarrow> child_visits st 0 = visits (st ! 0) \<longrightarrow> child_visits st' 0 = visits (st' ! 0)"
  proof (intro impI)
    assume j0: "j \<noteq> 0" and e: "child_visits st 0 = visits (st ! 0)"
    have "child_visits ?st2 0 = visits (?st2 ! 0)" by (simp only: c2 v2 e)
    then show "child_visits st' 0 = visits (st' ! 0)" using eq j0 by blast
  qed
  moreover have "visits (st' ! 0) = Suc (visits (st ! 0))" by (simp only: rv v2)
  ultimately show ?thesis using si' de by blast
qed

lemma simulations_inv:
  fixes g :: "('s, 'm, 'p) game" and st :: "'s store"
  assumes "search_inv st" and "simulations g rnd n (st, k) = Some (Inr (st', k'))"
  shows "search_inv st' \<and> visits (st' ! 0) = visits (st ! 0) + n \<and>
         (0 \<notin> set (leaves g rnd n (st, k)) \<longrightarrow> child_visits st 0 = visits (st ! 0) \<longrightarrow>
            child_visits st' 0 = visits (st' ! 0))"
  using assms
proof (induction n arbitrary: st k)
  case 0
  then show ?case by simp
next
  case (Suc n)
  from Suc.prems(2) obtain st1 k1 where it: "iteration g rnd (st, k) = Some (Inr (st1, k1))"
    and rest: "simulations g rnd n (st1, k1) = Some (Inr (st', k'))"
    by (auto split: option.splits sum.splits)
  from iteration_inv[OF Suc.prems(1) it] obtain j sd where
    si1: "search_inv st1" and v1: "visits (st1 ! 0) = Suc (visits (st ! 0))"
    and de: "descend g st = Some (Inr (j, sd))"
    and eq1: "j \<noteq> 0 \<longrightarrow> child_visits st 0 = visits (st ! 0) \<longrightarrow> child_visits st1 0 = visits (st1 ! 0)"
    by blast
  from Suc.IH[OF si1 rest] have si': "search_inv st'"
    and v': "visits (st' ! 0) = visits (st1 ! 0) + n"
    and eq': "0 \<notin> set (leaves g rnd n (st1, k1)) \<longrightarrow> child_visits st1 0 = visits (st1 ! 0) \<longrightarrow>
            child_visits st' 0 = visits (st' ! 0)" by simp_all
  have lv: "leaves g rnd (Suc n) (st, k) = j # leaves g rnd n (st1, k1)"
    using de it by simp
  have "0 \<notin> set (leaves g rnd (Suc n) (st, k)) \<longrightarrow> child_visits st 0 = visits (st ! 0) \<longrightarrow>
            child_visits st' 0 = visits (st' ! 0)"
    using lv eq1 eq' by auto
  then show ?case using si' v' v1 by simp
qed

text \<open>
  A run of \<open>m + l\<close> passes is a run of \<open>m\<close> passes followed by a run of \<open>l\<close> passes from
  the store it has reached: the stores between the passes of a search are the results of
  its shorter runs.
\<close>

lemma simulations_add:
  "simulations g rnd (m + l) a =
     (case simulations g rnd m a of
        None \<Rightarrow> None
      | Some (Inl e) \<Rightarrow> Some (Inl e)
      | Some (Inr a') \<Rightarrow> simulations g rnd l a')"
  by (induction m arbitrary: a) (auto split: option.splits sum.splits)

lemma search_inv_init: "search_inv [new_node s0 None]"
  by (simp add: search_inv_def tree_inv_def child_visits_def)

lemma nim_three_passes:
  "simulations nim_game always_first 3 ([new_node (2, 1) None], 0) =
     Some (Inr ([\<lparr>state = (2, 1), parent = None, children = [1, 2], wins = 0, visits = 3\<rparr>,
                 \<lparr>state = (0, 1), parent = Some 0, children = [], wins = 0, visits = 2\<rparr>,
                 \<lparr>state = (0, 1), parent = Some 0, children = [], wins = 0, visits = 1\<rparr>], 2))"
  by (simp add: engine_defs nim_defs loop_simps numeral_3_eq_3)

lemma nim_three_leaves:
  "leaves nim_game always_first 3 ([new_node (2, 1) None], 0) = [1, 2, 1]"
  by (simp add: engine_defs nim_defs loop_simps numeral_3_eq_3)

subsection \<open>Visits of the root\<close>

text \<open>
  C7. Whenever \<open>search\<close> completes, that is, returns a chosen child together with its
  tree, the number of simulations was positive and the root's \<open>visits\<close> equals it: every
  pass backpropagates along the parent references up to the root and counts one visit
  there.
\<close>

theorem root_visits_equal_simulations:
  fixes g :: "('s, 'm, 'p) game"
  assumes "search g n s0 rnd = Some (Inr (c, st))"
  shows "0 < n \<and> int (visits (st ! 0)) = n"
proof -
  from assms obtain k where sim: "simulations g rnd (nat n) ([new_node s0 None], 0) = Some (Inr (st, k))"
    and bc: "best_child st 0 0 = Inr c"
    by (auto simp add: search_def split: option.splits sum.splits)
  from simulations_inv[OF search_inv_init sim]
  have v: "visits (st ! 0) = nat n" by simp
  have pos: "0 < n"
  proof (rule ccontr)
    assume "\<not> 0 < n"
    then have "nat n = 0" by simp
    then have "st = [new_node s0 None]" using sim by simp
    then have "best_child st 0 0 = Inl ValueError" by (simp add: best_child_no_children)
    then show False using bc by simp
  qed
  show ?thesis using v pos by simp
qed

theorem root_visits_equal_simulations_witness:
  "search nim_game 2 (1, 1) always_first =
     Some (Inr (1, [\<lparr>state = (1, 1), parent = None, children = [1], wins = 2, visits = 2\<rparr>,
                    \<lparr>state = (0, 2), parent = Some 0, children = [], wins = 0, visits = 2\<rparr>])) \<and>
   int (visits ([\<lparr>state = (1::nat, 1::int), parent = None, children = [1], wins = 2, visits = 2\<rparr>,
                 \<lparr>state = (0, 2), parent = Some 0, children = [], wins = 0, visits = 2\<rparr>] ! 0)) = 2"
proof -
  have e: "search nim_game 2 (1, 1) always_first =
     Some (Inr (1, [\<lparr>state = (1, 1), parent = None, children = [1], wins = 2, visits = 2\<rparr>,
                    \<lparr>state = (0, 2), parent = Some 0, children = [], wins = 0, visits = 2\<rparr>]))"
    by (simp add: engine_defs nim_defs loop_simps numeral_2_eq_2)
  from root_visits_equal_simulations[OF e] e show ?thesis by simp
qed

subsection \<open>Scores are taken of visited nodes only\<close>

lemma search_inv_scores:
  fixes st :: "'s store"
  assumes si: "search_inv st" and p: "p < length st" and c: "c \<in> set (children (st ! p))"
  shows "parent (st ! c) = Some p \<and> 1 \<le> visits (st ! c) \<and> 1 \<le> visits (st ! p)"
proof -
  have ti: "tree_inv st" using si by (rule search_inv_tree)
  have cl: "c < length st" and pc: "parent (st ! c) = Some p" using tree_inv_child[OF ti p c] by simp_all
  have "p < c" using tree_inv_parent_less[OF ti cl pc] .
  then have c0: "c \<noteq> 0" by simp
  have vc: "1 \<le> visits (st ! c)" using search_inv_visited[OF si cl c0] .
  have "visits (st ! c) \<in> set (map (\<lambda>c. visits (st ! c)) (children (st ! p)))" using c by simp
  then have "visits (st ! c) \<le> child_visits st p"
    unfolding child_visits_def by (simp add: member_le_sum_list)
  then have "visits (st ! c) \<le> visits (st ! p)" using search_inv_sum[OF si p] by simp
  then show ?thesis using pc vc by simp
qed

lemma argmax_error: "argmax xs = Inl e \<Longrightarrow> e = ValueError"
  by (cases xs) auto

text \<open>
  C8. \<open>ucb1\<close> is evaluated by \<open>best_child\<close> only, which \<open>_select\<close> runs on the store as
  it is at the start of a pass and \<open>search\<close> runs on the store after the last pass. In the
  store after any number \<open>m\<close> of completed passes, every child \<open>c\<close> of every node \<open>p\<close>
  has at least one visit, and so has \<open>p\<close>: the division and the logarithm of the formula
  are defined, the score of \<open>c\<close> is the value of the formula, and \<open>best_child\<close> never
  raises the division error. A node with no visit exists only inside the pass that created
  it, which backpropagates through it before any score is taken.
\<close>

theorem ucb1_scores_visited_only:
  fixes g :: "('s, 'm, 'p) game"
  assumes "simulations g rnd m ([new_node s0 None], 0) = Some (Inr (st, k))"
  shows "\<forall>p<length st.
           (\<forall>c\<in>set (children (st ! p)).
              1 \<le> visits (st ! c) \<and> 1 \<le> visits (st ! p) \<and>
              (\<forall>w. ucb1 st c w = Inr (Val (node_score st w p c)))) \<and>
           (\<forall>w. best_child st p w \<noteq> Inl ZeroDivisionError)"
proof (intro allI impI conjI ballI)
  have si: "search_inv st" using simulations_inv[OF search_inv_init assms] by simp
  fix p assume p: "p < length st"
  {
    fix c assume c: "c \<in> set (children (st ! p))"
    note f = search_inv_scores[OF si p c]
    show "1 \<le> visits (st ! c)" using f by simp
    show "1 \<le> visits (st ! p)" using f by simp
    fix w show "ucb1 st c w = Inr (Val (node_score st w p c))"
      using f by (simp add: ucb1_visited)
  }
  fix w
  have h: "\<forall>c\<in>set (children (st ! p)). parent (st ! c) = Some p \<and> 1 \<le> visits (st ! c)"
    using search_inv_scores[OF si p] by blast
  show "best_child st p w \<noteq> Inl ZeroDivisionError"
  proof (cases "children (st ! p)")
    case Nil
    then show ?thesis by (simp add: best_child_no_children)
  next
    case (Cons a as)
    then have "a \<in> set (children (st ! p))" by simp
    then have vp: "1 \<le> visits (st ! p)" using search_inv_scores[OF si p] by blast
    show ?thesis
      using argmax_error
      by (auto simp add: best_child_def ucb1_all_visited[OF h vp] split: sum.splits)
  qed
qed


theorem ucb1_scores_visited_only_witness:
  "simulations nim_game always_first 3 ([new_node (2, 1) None], 0) =
     Some (Inr ([\<lparr>state = (2, 1), parent = None, children = [1, 2], wins = 0, visits = 3\<rparr>,
                 \<lparr>state = (0, 1), parent = Some 0, children = [], wins = 0, visits = 2\<rparr>,
                 \<lparr>state = (0, 1), parent = Some 0, children = [], wins = 0, visits = 1\<rparr>], 2)) \<and>
   best_child [\<lparr>state = (2::nat, 1::int), parent = None, children = [1, 2], wins = 0, visits = 3\<rparr>,
               \<lparr>state = (0, 1), parent = Some 0, children = [], wins = 0, visits = 2\<rparr>,
               \<lparr>state = (0, 1), parent = Some 0, children = [], wins = 0, visits = 1\<rparr>] 0 0
     \<noteq> Inl ZeroDivisionError"
  using ucb1_scores_visited_only[OF nim_three_passes, rule_format, of 0] nim_three_passes
  by simp

subsection \<open>Visits of a node and of its children\<close>

text \<open>
  C9 as stated fails inside \<open>_backpropagate\<close>, which walks from the leaf to the root: in
  the first pass of a search on the take-away game with one stone, the loop has counted the
  visit of the new child and not yet that of the root, whose \<open>visits\<close> (0) is then smaller
  than the sum over its children (1).
\<close>

theorem child_visits_inside_backpropagate_counterexample:
  "descend nim_game [new_node (1, 1) None] =
     Some (Inr (1, [\<lparr>state = (1, 1), parent = None, children = [1], wins = 0, visits = 0\<rparr>,
                    \<lparr>state = (0, 2), parent = Some 0, children = [], wins = 0, visits = 0\<rparr>])) \<and>
   backpropagate nim_game (Some 1) 1
       [\<lparr>state = (1, 1), parent = None, children = [1], wins = 0, visits = 0\<rparr>,
        \<lparr>state = (0, 2), parent = Some 0, children = [], wins = 0, visits = 0\<rparr>] =
     backpropagate nim_game (Some 0) 1
       [\<lparr>state = (1, 1), parent = None, children = [1], wins = 0, visits = 0\<rparr>,
        \<lparr>state = (0, 2), parent = Some 0, children = [], wins = 0, visits = 1\<rparr>] \<and>
   visits ([\<lparr>state = (1::nat, 1::int), parent = None, children = [1], wins = 0, visits = 0\<rparr>,
            \<lparr>state = (0, 2), parent = Some 0, children = [], wins = 0, visits = 1\<rparr>] ! 0)
     < child_visits [\<lparr>state = (1::nat, 1::int), parent = None, children = [1], wins = 0, visits = 0\<rparr>,
            \<lparr>state = (0, 2), parent = Some 0, children = [], wins = 0, visits = 1\<rparr>] 0"
proof -
  have a: "descend nim_game [new_node (1, 1) None] =
     Some (Inr (1, [\<lparr>state = (1, 1), parent = None, children = [1], wins = 0, visits = 0\<rparr>,
                    \<lparr>state = (0, 2), parent = Some 0, children = [], wins = 0, visits = 0\<rparr>]))"
    by (simp add: engine_defs nim_defs loop_simps)
  have b: "backpropagate nim_game (Some 1) 1
       [\<lparr>state = (1, 1), parent = None, children = [1], wins = 0, visits = 0\<rparr>,
        \<lparr>state = (0, 2), parent = Some 0, children = [], wins = 0, visits = 0\<rparr>] =
     backpropagate nim_game (Some 0) 1
       [\<lparr>state = (1, 1), parent = None, children = [1], wins = 0, visits = 0\<rparr>,
        \<lparr>state = (0, 2), parent = Some 0, children = [], wins = 0, visits = 1\<rparr>]"
    by (subst backpropagate.simps) (simp add: bump_def nim_defs)
  show ?thesis using a b by (simp add: child_visits_def)
qed

text \<open>
  \<open>backpropagate_after\<close> gives the states of the loop of \<open>backpropagate\<close>: the loop run from
  the start and the loop run from the state after \<open>n\<close> passes of its body end alike.
\<close>

lemma backpropagate_after_continues:
  "backpropagate g nd r st =
     (case backpropagate_after n g r (nd, st) of (nd', st') \<Rightarrow> backpropagate g nd' r st')"
proof (induction n arbitrary: nd st)
  case 0
  show ?case by simp
next
  case (Suc n)
  show ?case
  proof (cases nd)
    case None
    then show ?thesis by simp
  next
    case (Some i)
    have "backpropagate g (Some i) r st =
        backpropagate g (parent (st ! i)) r (st[i := bump g r (st ! i)])"
      by (subst backpropagate.simps) simp
    then show ?thesis using Some Suc.IH[of "parent (st ! i)" "st[i := bump g r (st ! i)]"] by simp
  qed
qed

lemma child_visits_step:
  fixes s :: "'s store" and g :: "('s, 'm, 'p) game"
  assumes t: "tree_inv s" and j: "j < length s" and I: "short_by_one (Some j) s"
  shows "short_by_one (parent (s ! j)) (s[j := bump g r (s ! j)])"
  unfolding short_by_one_def
proof (intro allI impI)
  fix N assume "N < length (s[j := bump g r (s ! j)])"
  then have Ns: "N < length s" by simp
  have cvN: "child_visits (s[j := bump g r (s ! j)]) N =
       child_visits s N + (if j \<in> set (children (s ! N)) then 1 else 0)"
    by (rule child_visits_bump[OF t Ns])
  have vN: "visits (s[j := bump g r (s ! j)] ! N) = visits (s ! N) + (if N = j then 1 else 0)"
    by (rule visits_bump[OF Ns])
  have IN: "child_visits s N \<le> visits (s ! N) + (if j = N then 1 else 0)"
    using I Ns by (auto simp add: short_by_one_def)
  show "child_visits (s[j := bump g r (s ! j)]) N
        \<le> visits (s[j := bump g r (s ! j)] ! N) + (if parent (s ! j) = Some N then 1 else 0)"
  proof (cases "j \<in> set (children (s ! N))")
    case True
    have pj: "parent (s ! j) = Some N" using child_of_parent[OF t Ns True] .
    have "N < j" using tree_inv_parent_less[OF t j pj] .
    then show ?thesis using cvN vN IN True pj by simp
  next
    case False
    show ?thesis using cvN vN IN False by auto
  qed
qed

lemma backpropagate_after_short_by_one:
  fixes st :: "'s store" and g :: "('s, 'm, 'p) game"
  assumes "tree_inv st" and "\<forall>i. cur = Some i \<longrightarrow> i < length st" and "short_by_one cur st"
    and "backpropagate_after n g r (cur, st) = (cur', st')"
  shows "short_by_one cur' st'"
  using assms
proof (induction n arbitrary: cur st)
  case 0
  then show ?case by simp
next
  case (Suc n)
  show ?case
  proof (cases cur)
    case None
    then show ?thesis using Suc.prems by simp
  next
    case (Some i)
    let ?s1 = "st[i := bump g r (st ! i)]"
    have i: "i < length st" using Suc.prems(2) Some by simp
    have t1: "tree_inv ?s1" using same_shape_bump Suc.prems(1) by (rule same_shape_tree_inv)
    have b1: "\<forall>q. parent (st ! i) = Some q \<longrightarrow> q < length ?s1"
    proof (intro allI impI)
      fix q assume "parent (st ! i) = Some q"
      then have "q < i" using tree_inv_parent_less[OF Suc.prems(1) i] by simp
      then show "q < length ?s1" using i by simp
    qed
    have s1: "short_by_one (parent (st ! i)) ?s1"
      using Suc.prems(3) Some by (intro child_visits_step[OF Suc.prems(1) i]) simp
    have r: "backpropagate_after n g r (parent (st ! i), ?s1) = (cur', st')"
      using Suc.prems(4) Some by simp
    show ?thesis by (rule Suc.IH[OF t1 b1 s1 r])
  qed
qed

lemma mid_inv_short_by_one: "mid_inv j st \<Longrightarrow> short_by_one (Some j) st"
  by (simp add: mid_inv_def short_by_one_def le_SucI)

lemma nim_one_pass:
  "simulations nim_game always_first 1 ([new_node (2, 1) None], 0) =
     Some (Inr ([\<lparr>state = (2, 1), parent = None, children = [1], wins = 0, visits = 1\<rparr>,
                 \<lparr>state = (0, 1), parent = Some 0, children = [], wins = 0, visits = 1\<rparr>], 1))"
  by (simp add: engine_defs nim_defs loop_simps)

lemma nim_second_descend:
  "descend nim_game
      [\<lparr>state = (2, 1), parent = None, children = [1], wins = 0, visits = 1\<rparr>,
       \<lparr>state = (0, 1), parent = Some 0, children = [], wins = 0, visits = 1\<rparr>] =
     Some (Inr (2, [\<lparr>state = (2, 1), parent = None, children = [1, 2], wins = 0, visits = 1\<rparr>,
                    \<lparr>state = (0, 1), parent = Some 0, children = [], wins = 0, visits = 1\<rparr>,
                    \<lparr>state = (1, 2), parent = Some 0, children = [], wins = 0, visits = 0\<rparr>]))"
  by (simp add: engine_defs nim_defs loop_simps)

lemma nim_second_backpropagate:
  "backpropagate_after 1 nim_game 2
      (Some 2, [\<lparr>state = (2, 1), parent = None, children = [1, 2], wins = 0, visits = 1\<rparr>,
                \<lparr>state = (0, 1), parent = Some 0, children = [], wins = 0, visits = 1\<rparr>,
                \<lparr>state = (0, 1), parent = Some 0, children = [], wins = 0, visits = 0\<rparr>]) =
     (Some 0, [\<lparr>state = (2, 1), parent = None, children = [1, 2], wins = 0, visits = 1\<rparr>,
               \<lparr>state = (0, 1), parent = Some 0, children = [], wins = 0, visits = 1\<rparr>,
               \<lparr>state = (0, 1), parent = Some 0, children = [], wins = 0, visits = 1\<rparr>])"
  by (simp add: bump_def nim_defs)

text \<open>
  C9, as the program has it. Let \<open>st\<close> be the store after any number \<open>m\<close> of completed
  passes (so between two passes, and after the search). Every node of \<open>st\<close> has at least as
  many visits as its children together, and the root has exactly as many when no pass has
  backpropagated from the root itself, so that every pass went through exactly one child of
  the root. Inside the next pass the inequality still holds of every node after \<open>_select\<close>
  and \<open>_expand\<close> (the store \<open>st1\<close>) and during and after the rollout (whatever state \<open>s\<close>
  it has written to the node \<open>j\<close> it plays on). Inside the loop of \<open>_backpropagate\<close>, after
  any number \<open>n\<close> of passes of its body, it holds of every node but the one that the loop
  counts next, the parent of the node it has just counted, which is short by at most one.
\<close>

theorem child_visits_bounded_throughout:
  fixes g :: "('s, 'm, 'p) game"
  assumes "simulations g rnd m ([new_node s0 None], 0) = Some (Inr (st, k))"
  shows "(\<forall>i<length st. child_visits st i \<le> visits (st ! i)) \<and>
         (0 \<notin> set (leaves g rnd m ([new_node s0 None], 0)) \<longrightarrow> child_visits st 0 = visits (st ! 0)) \<and>
         (\<forall>j st1. descend g st = Some (Inr (j, st1)) \<longrightarrow>
            (\<forall>i<length st1. child_visits st1 i \<le> visits (st1 ! i)) \<and>
            (\<forall>s. \<forall>i<length st1.
               child_visits (st1[j := (st1 ! j)\<lparr>state := s\<rparr>]) i
                 \<le> visits (st1[j := (st1 ! j)\<lparr>state := s\<rparr>] ! i)) \<and>
            (\<forall>s r n cur st2.
               backpropagate_after n g r (Some j, st1[j := (st1 ! j)\<lparr>state := s\<rparr>]) = (cur, st2) \<longrightarrow>
               (\<forall>i<length st2.
                  child_visits st2 i \<le> visits (st2 ! i) + (if cur = Some i then 1 else 0))))"
proof (intro conjI allI impI)
  from simulations_inv[OF search_inv_init assms]
  have si: "search_inv st"
    and eq: "0 \<notin> set (leaves g rnd m ([new_node s0 None], 0)) \<longrightarrow>
       child_visits [new_node s0 None] 0 = visits ([new_node s0 None] ! 0) \<longrightarrow>
       child_visits st 0 = visits (st ! 0)" by simp_all
  {
    fix i assume "i < length st"
    then show "child_visits st i \<le> visits (st ! i)" by (rule search_inv_sum[OF si])
  }
  {
    assume "0 \<notin> set (leaves g rnd m ([new_node s0 None], 0))"
    moreover have "child_visits [new_node s0 None] 0 = visits ([new_node s0 None] ! 0)"
      by (simp add: child_visits_def)
    ultimately show "child_visits st 0 = visits (st ! 0)" using eq by blast
  }
  fix j st1 assume de: "descend g st = Some (Inr (j, st1))"
  have mi: "mid_inv j st1" using descend_mid[OF si de] by simp
  {
    fix i assume "i < length st1"
    then show "child_visits st1 i \<le> visits (st1 ! i)" using mi by (simp add: mid_inv_def)
  }
  fix s
  let ?s2 = "st1[j := (st1 ! j)\<lparr>state := s\<rparr>]"
  have mi2: "mid_inv j ?s2" using mi by (rule mid_inv_set_state)
  {
    fix i assume "i < length st1"
    then show "child_visits ?s2 i \<le> visits (?s2 ! i)" using mi2 by (simp add: mid_inv_def)
  }
  fix r n cur st2 i
  assume ba: "backpropagate_after n g r (Some j, ?s2) = (cur, st2)" and i: "i < length st2"
  have t2: "tree_inv ?s2" and j2: "\<forall>i. Some j = Some i \<longrightarrow> i < length ?s2"
    using mi2 by (simp_all add: mid_inv_def)
  have "short_by_one cur st2"
    by (rule backpropagate_after_short_by_one[OF t2 j2 mid_inv_short_by_one[OF mi2] ba])
  then show "child_visits st2 i \<le> visits (st2 ! i) + (if cur = Some i then 1 else 0)"
    using i by (simp add: short_by_one_def)
qed


theorem child_visits_bounded_throughout_witness:
  "simulations nim_game always_first 3 ([new_node (2, 1) None], 0) =
     Some (Inr ([\<lparr>state = (2, 1), parent = None, children = [1, 2], wins = 0, visits = 3\<rparr>,
                 \<lparr>state = (0, 1), parent = Some 0, children = [], wins = 0, visits = 2\<rparr>,
                 \<lparr>state = (0, 1), parent = Some 0, children = [], wins = 0, visits = 1\<rparr>], 2)) \<and>
   leaves nim_game always_first 3 ([new_node (2, 1) None], 0) = [1, 2, 1] \<and>
   child_visits [\<lparr>state = (2::nat, 1::int), parent = None, children = [1, 2], wins = 0, visits = 3\<rparr>,
               \<lparr>state = (0, 1), parent = Some 0, children = [], wins = 0, visits = 2\<rparr>,
               \<lparr>state = (0, 1), parent = Some 0, children = [], wins = 0, visits = 1\<rparr>] 0 = 3 \<and>
   simulations nim_game always_first 1 ([new_node (2, 1) None], 0) =
     Some (Inr ([\<lparr>state = (2, 1), parent = None, children = [1], wins = 0, visits = 1\<rparr>,
                 \<lparr>state = (0, 1), parent = Some 0, children = [], wins = 0, visits = 1\<rparr>], 1)) \<and>
   descend nim_game
      [\<lparr>state = (2, 1), parent = None, children = [1], wins = 0, visits = 1\<rparr>,
       \<lparr>state = (0, 1), parent = Some 0, children = [], wins = 0, visits = 1\<rparr>] =
     Some (Inr (2, [\<lparr>state = (2, 1), parent = None, children = [1, 2], wins = 0, visits = 1\<rparr>,
                    \<lparr>state = (0, 1), parent = Some 0, children = [], wins = 0, visits = 1\<rparr>,
                    \<lparr>state = (1, 2), parent = Some 0, children = [], wins = 0, visits = 0\<rparr>])) \<and>
   backpropagate_after 1 nim_game 2
      (Some 2, [\<lparr>state = (2, 1), parent = None, children = [1, 2], wins = 0, visits = 1\<rparr>,
                \<lparr>state = (0, 1), parent = Some 0, children = [], wins = 0, visits = 1\<rparr>,
                \<lparr>state = (0, 1), parent = Some 0, children = [], wins = 0, visits = 0\<rparr>]) =
     (Some 0, [\<lparr>state = (2, 1), parent = None, children = [1, 2], wins = 0, visits = 1\<rparr>,
               \<lparr>state = (0, 1), parent = Some 0, children = [], wins = 0, visits = 1\<rparr>,
               \<lparr>state = (0, 1), parent = Some 0, children = [], wins = 0, visits = 1\<rparr>]) \<and>
   child_visits [\<lparr>state = (2::nat, 1::int), parent = None, children = [1, 2], wins = 0, visits = 1\<rparr>,
               \<lparr>state = (0, 1), parent = Some 0, children = [], wins = 0, visits = 1\<rparr>,
               \<lparr>state = (0, 1), parent = Some 0, children = [], wins = 0, visits = 1\<rparr>] 0
     \<le> visits ([\<lparr>state = (2::nat, 1::int), parent = None, children = [1, 2], wins = 0, visits = 1\<rparr>,
               \<lparr>state = (0, 1), parent = Some 0, children = [], wins = 0, visits = 1\<rparr>,
               \<lparr>state = (0, 1), parent = Some 0, children = [], wins = 0, visits = 1\<rparr>] ! 0) + 1"
proof -
  let ?T1 = "[\<lparr>state = (2::nat, 1::int), parent = None, children = [1, 2], wins = 0, visits = 1\<rparr>,
              \<lparr>state = (0, 1), parent = Some 0, children = [], wins = 0, visits = 1\<rparr>,
              \<lparr>state = (1, 2), parent = Some 0, children = [], wins = 0, visits = 0\<rparr>]"
  let ?T2 = "[\<lparr>state = (2::nat, 1::int), parent = None, children = [1, 2], wins = 0, visits = 1\<rparr>,
              \<lparr>state = (0, 1), parent = Some 0, children = [], wins = 0, visits = 1\<rparr>,
              \<lparr>state = (0, 1), parent = Some 0, children = [], wins = 0, visits = 1\<rparr>]"
  have three: "child_visits [\<lparr>state = (2::nat, 1::int), parent = None, children = [1, 2], wins = 0, visits = 3\<rparr>,
               \<lparr>state = (0, 1), parent = Some 0, children = [], wins = 0, visits = 2\<rparr>,
               \<lparr>state = (0, 1), parent = Some 0, children = [], wins = 0, visits = 1\<rparr>] 0 = 3"
    using child_visits_bounded_throughout[OF nim_three_passes] nim_three_leaves by simp
  have ba: "backpropagate_after 1 nim_game 2 (Some 2, ?T1[2 := (?T1 ! 2)\<lparr>state := (0, 1)\<rparr>]) = (Some 0, ?T2)"
    by (simp add: bump_def nim_defs)
  note inside = child_visits_bounded_throughout[OF nim_one_pass, THEN conjunct2, THEN conjunct2,
      rule_format, OF nim_second_descend, THEN conjunct2, THEN conjunct2, rule_format, OF ba, of 0]
  have "child_visits ?T2 0 \<le> visits (?T2 ! 0) + 1" using inside by simp
  then show ?thesis
    using three nim_three_passes nim_three_leaves nim_one_pass nim_second_descend
      nim_second_backpropagate by simp
qed

end
